theory Spec2Isabelle
  imports Complex_Main "HOL-Library.Word"
begin

section \<open>JavaScript values\<close>

text \<open>
  A JavaScript number is an IEEE double. The model keeps its special values, which decide
  what the code does on a one-point line (\<open>0 / 0\<close>) and in strict equality
  (\<open>NaN === NaN\<close> is false), and idealises the finite ones as exact rationals: no
  rounding, one zero. The rounding of a \<open>Float32Array\<close> store is idealised away in the
  same manner.
\<close>

datatype jsnum = Fin rat | PInf | NInf | NaN

text \<open>\<open>a === b\<close> on two numbers.\<close>

fun strict_eq :: "jsnum \<Rightarrow> jsnum \<Rightarrow> bool" where
  "strict_eq NaN _ = False"
| "strict_eq _ NaN = False"
| "strict_eq a b = (a = b)"

text \<open>\<open>a === b\<close> where either side may be \<open>undefined\<close> (an array read out of range).\<close>

fun strict_eq_undef :: "jsnum option \<Rightarrow> jsnum option \<Rightarrow> bool" where
  "strict_eq_undef None None = True"
| "strict_eq_undef (Some a) (Some b) = strict_eq a b"
| "strict_eq_undef _ _ = False"

text \<open>\<open>a / b\<close>. The only zero of the model is \<open>+0\<close>.\<close>

fun num_div :: "jsnum \<Rightarrow> jsnum \<Rightarrow> jsnum" where
  "num_div NaN _ = NaN"
| "num_div _ NaN = NaN"
| "num_div (Fin a) (Fin b) =
     (if b = 0 then (if a = 0 then NaN else if 0 < a then PInf else NInf) else Fin (a / b))"
| "num_div (Fin a) _ = Fin 0"
| "num_div PInf (Fin b) = (if 0 \<le> b then PInf else NInf)"
| "num_div NInf (Fin b) = (if 0 \<le> b then NInf else PInf)"
| "num_div _ _ = NaN"

fun num_add :: "jsnum \<Rightarrow> jsnum \<Rightarrow> jsnum" where
  "num_add NaN _ = NaN"
| "num_add _ NaN = NaN"
| "num_add (Fin a) (Fin b) = Fin (a + b)"
| "num_add PInf NInf = NaN"
| "num_add NInf PInf = NaN"
| "num_add PInf _ = PInf"
| "num_add _ PInf = PInf"
| "num_add _ _ = NInf"




text \<open>The number of an array index or a length.\<close>

definition of_index :: "int \<Rightarrow> jsnum" where
  "of_index i = Fin (of_int i)"

text \<open>\<open>xs[i]\<close> on a JavaScript array: \<open>undefined\<close> outside \<open>0 .. length - 1\<close>.\<close>

definition js_at :: "'a list \<Rightarrow> int \<Rightarrow> 'a option" where
  "js_at xs i = (if 0 \<le> i \<and> i < int (length xs) then Some (xs ! nat i) else None)"

datatype vector3 = Vector3 (vx: jsnum) (vy: jsnum) (vz: jsnum)

text \<open>
  The argument of \<open>setPoints\<close>: an array of \<open>Vector3\<close>, an array (or \<open>Float32Array\<close>)
  of numbers, or anything else.
\<close>

datatype points_arg = Vector3Array "vector3 list" | NumberArray "jsnum list" | NotAnArray

datatype error =
    InvalidPoints
  | PointMissing
  | CallSetPointsFirst
  | NotEnoughSpace
  | MissingSrcValue
  | RangeError
  | MissingIndex

text \<open>
  A call returns, or throws and leaves the object as far as it had been mutated.
\<close>

datatype 'a outcome = Return 'a | Throw error 'a

fun and_then :: "'a outcome \<Rightarrow> ('a \<Rightarrow> 'a outcome) \<Rightarrow> 'a outcome" where
  "and_then (Return a) f = f a"
| "and_then (Throw e a) f = Throw e a"

fun returns :: "'a outcome \<Rightarrow> bool" where
  "returns (Return a) = True"
| "returns (Throw e a) = False"

fun final :: "'a outcome \<Rightarrow> 'a" where
  "final (Return a) = a"
| "final (Throw e a) = a"

section \<open>The geometry object\<close>

text \<open>
  A \<open>BufferAttribute\<close> of three.js: a typed array, the number of components per vertex
  and the upload flag. \<open>ident\<close> is the identity of the object, so that reusing an
  attribute can be told from allocating a new one. \<open>count\<close> is \<open>array.length / itemSize\<close>,
  exact on the arrays of this geometry, which hold whole vertices.
\<close>

record 'a buffer_attribute =
  ident :: nat
  array :: "'a list"
  itemSize :: nat
  needsUpdate :: bool

definition count :: "'a buffer_attribute \<Rightarrow> nat" where
  "count b = length (array b) div itemSize b"

record attributes =
  attr_position :: "jsnum buffer_attribute"
  attr_previous :: "jsnum buffer_attribute"
  attr_next :: "jsnum buffer_attribute"
  attr_side :: "jsnum buffer_attribute"
  attr_width :: "jsnum buffer_attribute"
  attr_uv :: "jsnum buffer_attribute"
  attr_index :: "16 word buffer_attribute"
  attr_counters :: "jsnum buffer_attribute"

text \<open>
  The private fields of \<open>MeshLineGeometry\<close> (\<open>#positions\<close> is \<open>priv_positions\<close>, and so
  on) and \<open>widthCallback\<close>. Two fields are not in the source: \<open>callback_log\<close> lists the
  arguments the width callback has been invoked with, in order, and \<open>allocated\<close> counts
  the \<open>BufferAttribute\<close> objects created so far (the next fresh identity).
\<close>

record geometry =
  priv_positions :: "jsnum list"
  priv_previous :: "jsnum list"
  priv_next :: "jsnum list"
  priv_side :: "jsnum list"
  priv_width :: "jsnum list"
  priv_indices_array :: "nat list"
  priv_uvs :: "jsnum list"
  priv_counters :: "jsnum list"
  widthCallback :: "(jsnum \<Rightarrow> jsnum) option"
  priv_attributes :: "attributes option"
  priv_points :: points_arg
  callback_log :: "jsnum list"
  allocated :: nat

definition new_geometry :: geometry where
  "new_geometry =
     \<lparr>priv_positions = [], priv_previous = [], priv_next = [], priv_side = [],
      priv_width = [], priv_indices_array = [], priv_uvs = [], priv_counters = [],
      widthCallback = None, priv_attributes = None, priv_points = NumberArray [],
      callback_log = [], allocated = 0\<rparr>"

section \<open>setPoints\<close>

text \<open>\<open>const itemSize = 6\<close>: the scalars of one point, three for each rail.\<close>

definition itemSize_const :: int where
  "itemSize_const = 6"

definition pointsAreEqual :: "geometry \<Rightarrow> int \<Rightarrow> int \<Rightarrow> bool" where
  "pointsAreEqual g pointIndexA pointIndexB =
     (let actualIndexA = pointIndexA * itemSize_const;
          actualIndexB = pointIndexB * itemSize_const
      in strict_eq_undef (js_at (priv_positions g) (actualIndexA + 0))
                         (js_at (priv_positions g) (actualIndexB + 0)) \<and>
         strict_eq_undef (js_at (priv_positions g) (actualIndexA + 1))
                         (js_at (priv_positions g) (actualIndexB + 1)) \<and>
         strict_eq_undef (js_at (priv_positions g) (actualIndexA + 2))
                         (js_at (priv_positions g) (actualIndexB + 2)))"

text \<open>\<open>#clonePoint\<close> throws \<open>point missing\<close> when a coordinate reads \<open>undefined\<close>.\<close>

definition clonePoint :: "geometry \<Rightarrow> int \<Rightarrow> error + jsnum \<times> jsnum \<times> jsnum" where
  "clonePoint g pointIndex =
     (let actualIndex = pointIndex * itemSize_const
      in case (js_at (priv_positions g) (actualIndex + 0),
               js_at (priv_positions g) (actualIndex + 1),
               js_at (priv_positions g) (actualIndex + 2)) of
           (Some x, Some y, Some z) \<Rightarrow> Inr (x, y, z)
         | _ \<Rightarrow> Inl PointMissing)"

text \<open>The loop of \<open>setPoints\<close> over an array of \<open>Vector3\<close>, from index \<open>j\<close> on.\<close>

function vector_loop :: "vector3 list \<Rightarrow> nat \<Rightarrow> geometry \<Rightarrow> geometry outcome" where
  "vector_loop points j g =
     (if j < length points then
        (case js_at points (int j) of
           None \<Rightarrow> Throw PointMissing g
         | Some p \<Rightarrow>
             let c = num_div (of_index (int j)) (of_index (int (length points)));
                 g1 = g\<lparr>priv_positions := priv_positions g @ [vx p, vy p, vz p]\<rparr>;
                 g2 = g1\<lparr>priv_positions := priv_positions g1 @ [vx p, vy p, vz p]\<rparr>;
                 g3 = g2\<lparr>priv_counters := priv_counters g2 @ [c]\<rparr>;
                 g4 = g3\<lparr>priv_counters := priv_counters g3 @ [c]\<rparr>
             in vector_loop points (j + 1) g4)
      else Return g)"
  by pat_completeness auto
termination
  by (relation "measure (\<lambda>(points, j, g). length points - j)") auto

declare vector_loop.simps [simp del]

text \<open>The loop over a flat array of numbers, three scalars at a time.\<close>

function number_loop :: "jsnum list \<Rightarrow> nat \<Rightarrow> geometry \<Rightarrow> geometry outcome" where
  "number_loop points j g =
     (if j < length points then
        (let c = num_div (of_index (int j)) (of_index (int (length points)))
         in case (js_at points (int j + 0), js_at points (int j + 1), js_at points (int j + 2)) of
              (Some x, Some y, Some z) \<Rightarrow>
                let g1 = g\<lparr>priv_positions := priv_positions g @ [x, y, z]\<rparr>;
                    g2 = g1\<lparr>priv_positions := priv_positions g1 @ [x, y, z]\<rparr>;
                    g3 = g2\<lparr>priv_counters := priv_counters g2 @ [c]\<rparr>;
                    g4 = g3\<lparr>priv_counters := priv_counters g3 @ [c]\<rparr>
                in number_loop points (j + 3) g4
            | _ \<Rightarrow> Throw PointMissing g)
      else Return g)"
  by pat_completeness auto
termination
  by (relation "measure (\<lambda>(points, j, g). length points - j)") auto

declare number_loop.simps [simp del]

section \<open>The tessellation: process\<close>

text \<open>
  \<open>this.#previous.push(point[0], point[1], point[2])\<close>, twice: once for each rail. The
  same for \<open>#next\<close>.
\<close>

definition push_previous :: "jsnum \<times> jsnum \<times> jsnum \<Rightarrow> geometry \<Rightarrow> geometry" where
  "push_previous point g =
     (case point of (x, y, z) \<Rightarrow>
        let g1 = g\<lparr>priv_previous := priv_previous g @ [x, y, z]\<rparr>
        in g1\<lparr>priv_previous := priv_previous g1 @ [x, y, z]\<rparr>)"

definition push_next :: "jsnum \<times> jsnum \<times> jsnum \<Rightarrow> geometry \<Rightarrow> geometry" where
  "push_next point g =
     (case point of (x, y, z) \<Rightarrow>
        let g1 = g\<lparr>priv_next := priv_next g @ [x, y, z]\<rparr>
        in g1\<lparr>priv_next := priv_next g1 @ [x, y, z]\<rparr>)"

text \<open>
  \<open>width = this.widthCallback(j / (pointCount - 1))\<close> when a callback is set, else
  \<open>width = 1\<close>. An invocation is entered in \<open>callback_log\<close>.
\<close>

definition eval_width :: "jsnum \<Rightarrow> geometry \<Rightarrow> jsnum \<times> geometry" where
  "eval_width arg g =
     (case widthCallback g of
        Some f \<Rightarrow> (f arg, g\<lparr>callback_log := callback_log g @ [arg]\<rparr>)
      | None \<Rightarrow> (Fin 1, g))"

text \<open>One iteration of the loop of \<open>#process\<close>, for the point of index \<open>j\<close>.\<close>

definition loop_body :: "int \<Rightarrow> nat \<Rightarrow> geometry \<Rightarrow> geometry outcome" where
  "loop_body pointCount j g =
     (let g1 = g\<lparr>priv_side := priv_side g @ [Fin 1]\<rparr>;
          g2 = g1\<lparr>priv_side := priv_side g1 @ [Fin (- 1)]\<rparr>;
          (width, g3) = eval_width (num_div (of_index (int j)) (of_index (pointCount - 1))) g2;
          g4 = g3\<lparr>priv_width := priv_width g3 @ [width]\<rparr>;
          g5 = g4\<lparr>priv_width := priv_width g4 @ [width]\<rparr>;
          u = num_div (of_index (int j)) (of_index (pointCount - 1));
          g6 = g5\<lparr>priv_uvs := priv_uvs g5 @ [u, Fin 0]\<rparr>;
          g7 = g6\<lparr>priv_uvs := priv_uvs g6 @ [u, Fin 1]\<rparr>
      in and_then
           (if int j < pointCount - 1 then
              (case clonePoint g7 (int j) of
                 Inl e \<Rightarrow> Throw e g7
               | Inr point \<Rightarrow>
                   let g8 = push_previous point g7;
                       n = j * 2;
                       g9 = g8\<lparr>priv_indices_array := priv_indices_array g8 @ [n, n + 1, n + 2]\<rparr>
                   in Return (g9\<lparr>priv_indices_array :=
                                 priv_indices_array g9 @ [n + 2, n + 1, n + 3]\<rparr>))
            else Return g7)
           (\<lambda>g10.
              if 0 < j then
                (case clonePoint g10 (int j) of
                   Inl e \<Rightarrow> Throw e g10
                 | Inr point \<Rightarrow> Return (push_next point g10))
              else Return g10))"

text \<open>\<open>for (let j = 0; j < pointCount; j++)\<close>, from \<open>j\<close> on.\<close>

function process_loop :: "int \<Rightarrow> nat \<Rightarrow> geometry \<Rightarrow> geometry outcome" where
  "process_loop pointCount j g =
     (if int j < pointCount then
        (case loop_body pointCount j g of
           Throw e g' \<Rightarrow> Throw e g'
         | Return g' \<Rightarrow> process_loop pointCount (j + 1) g')
      else Return g)"
  by pat_completeness auto
termination
  by (relation "measure (\<lambda>(pointCount, j, g). nat (pointCount - int j))") auto

declare process_loop.simps [simp del]

text \<open>
  \<open>new BufferAttribute(new Float32Array(xs), size)\<close>, and the same over a
  \<open>Uint16Array\<close>, which keeps each integer modulo \<open>2 ^ 16\<close>.
\<close>

definition new_attribute :: "nat \<Rightarrow> 'a list \<Rightarrow> nat \<Rightarrow> 'a buffer_attribute" where
  "new_attribute i xs n = \<lparr>ident = i, array = xs, itemSize = n, needsUpdate = False\<rparr>"

definition to_uint16 :: "nat list \<Rightarrow> 16 word list" where
  "to_uint16 xs = map of_nat xs"

definition create_attributes :: "geometry \<Rightarrow> geometry" where
  "create_attributes g =
     (let k = allocated g
      in g\<lparr>priv_attributes := Some
             \<lparr>attr_position = new_attribute k (priv_positions g) 3,
              attr_previous = new_attribute (k + 1) (priv_previous g) 3,
              attr_next = new_attribute (k + 2) (priv_next g) 3,
              attr_side = new_attribute (k + 3) (priv_side g) 1,
              attr_width = new_attribute (k + 4) (priv_width g) 1,
              attr_uv = new_attribute (k + 5) (priv_uvs g) 2,
              attr_index = new_attribute (k + 6) (to_uint16 (priv_indices_array g)) 1,
              attr_counters = new_attribute (k + 7) (priv_counters g) 1\<rparr>,
           allocated := k + 8\<rparr>)"

text \<open>
  \<open>attribute.copyArray(xs)\<close> is \<open>this.array.set(xs)\<close>: the typed array keeps its length,
  takes the values of \<open>xs\<close> from offset 0, and throws a \<open>RangeError\<close> when \<open>xs\<close> is
  longer than it is. Then \<open>attribute.needsUpdate = true\<close>.
\<close>

definition copyArray :: "'a buffer_attribute \<Rightarrow> 'a list \<Rightarrow> error + 'a buffer_attribute" where
  "copyArray b xs =
     (if length (array b) < length xs then Inl RangeError
      else Inr (b\<lparr>array := xs @ drop (length xs) (array b)\<rparr>))"

definition refresh ::
  "(attributes \<Rightarrow> 'a buffer_attribute) \<Rightarrow>
   (('a buffer_attribute \<Rightarrow> 'a buffer_attribute) \<Rightarrow> attributes \<Rightarrow> attributes) \<Rightarrow>
   'a list \<Rightarrow> attributes \<Rightarrow> attributes outcome" where
  "refresh field field_update xs a =
     (case copyArray (field a) xs of
        Inl e \<Rightarrow> Throw e a
      | Inr b \<Rightarrow> Return (field_update (\<lambda>_. b\<lparr>needsUpdate := True\<rparr>) a))"

definition refresh_attributes :: "geometry \<Rightarrow> attributes \<Rightarrow> attributes outcome" where
  "refresh_attributes g a =
     and_then (refresh attr_position attr_position_update (priv_positions g) a) (\<lambda>a.
     and_then (refresh attr_previous attr_previous_update (priv_previous g) a) (\<lambda>a.
     and_then (refresh attr_next attr_next_update (priv_next g) a) (\<lambda>a.
     and_then (refresh attr_side attr_side_update (priv_side g) a) (\<lambda>a.
     and_then (refresh attr_width attr_width_update (priv_width g) a) (\<lambda>a.
     and_then (refresh attr_uv attr_uv_update (priv_uvs g) a) (\<lambda>a.
     refresh attr_index attr_index_update (to_uint16 (priv_indices_array g)) a))))))"

text \<open>
  The end of \<open>#process\<close>: new attributes when there are none yet or the vertex count
  differs, else the existing ones refreshed in place. The attributes are then registered
  with the base geometry under their names (the same objects, by reference) and the
  bounding volumes recomputed; neither touches a field of this model.
\<close>

definition store_attributes :: "geometry \<Rightarrow> geometry outcome" where
  "store_attributes g =
     (case priv_attributes g of
        None \<Rightarrow> Return (create_attributes g)
      | Some a \<Rightarrow>
          if count (attr_position a) * 3 \<noteq> length (priv_positions g)
          then Return (create_attributes g)
          else (case refresh_attributes g a of
                  Throw e a' \<Rightarrow> Throw e (g\<lparr>priv_attributes := Some a'\<rparr>)
                | Return a' \<Rightarrow> Return (g\<lparr>priv_attributes := Some a'\<rparr>)))"

text \<open>
  \<open>#process\<close>. \<open>pointCount\<close> is \<open>#positions.length / itemSize\<close>. \<open>setPoints\<close> calls
  \<open>#process\<close> with the scalars of whole points in \<open>#positions\<close>, six for each (lemmas
  \<open>setPoints_process\<close> and \<open>length_positions_of\<close> below; on a flat array that is not
  made of whole points the loop throws first, lemma \<open>number_loop_ill_formed\<close>), so the
  quotient is exact.
\<close>

definition process :: "geometry \<Rightarrow> geometry outcome" where
  "process g0 =
     (let pointCount = int (length (priv_positions g0)) div itemSize_const;
          g = g0\<lparr>priv_previous := [], priv_next := [], priv_side := [], priv_width := [],
                 priv_indices_array := [], priv_uvs := []\<rparr>
      in and_then
           (case clonePoint g (if pointsAreEqual g 0 (pointCount - 1) then pointCount - 2 else 0) of
              Inl e \<Rightarrow> Throw e g
            | Inr point \<Rightarrow> Return (push_previous point g)) (\<lambda>g.
         and_then (process_loop pointCount 0 g) (\<lambda>g.
         and_then
           (case clonePoint g (if pointsAreEqual g (pointCount - 1) 0 then 1 else pointCount - 1) of
              Inl e \<Rightarrow> Throw e g
            | Inr point \<Rightarrow> Return (push_next point g))
         store_attributes)))"

text \<open>
  \<open>setPoints(points, wcb)\<close>. \<open>isVector3Array\<close> holds of a non-empty array whose first
  element is a \<open>Vector3\<close>.
\<close>

fun points_length :: "points_arg \<Rightarrow> nat" where
  "points_length (Vector3Array ps) = length ps"
| "points_length (NumberArray xs) = length xs"
| "points_length NotAnArray = 0"

fun isVector3Array :: "points_arg \<Rightarrow> bool" where
  "isVector3Array (Vector3Array ps) = (ps \<noteq> [])"
| "isVector3Array _ = False"

fun vectors :: "points_arg \<Rightarrow> vector3 list" where
  "vectors (Vector3Array ps) = ps"
| "vectors _ = []"

fun numbers :: "points_arg \<Rightarrow> jsnum list" where
  "numbers (NumberArray xs) = xs"
| "numbers _ = []"

definition fill :: "points_arg \<Rightarrow> geometry \<Rightarrow> geometry outcome" where
  "fill points g =
     (if isVector3Array points then vector_loop (vectors points) 0 g
      else number_loop (numbers points) 0 g)"

definition setPoints :: "points_arg \<Rightarrow> (jsnum \<Rightarrow> jsnum) option \<Rightarrow> geometry \<Rightarrow> geometry outcome" where
  "setPoints points wcb g =
     (if points = NotAnArray then Throw InvalidPoints g
      else if points_length points = 0 then Return g
      else
        let g1 = g\<lparr>priv_points := points\<rparr>;
            g2 = (case wcb of Some f \<Rightarrow> g1\<lparr>widthCallback := Some f\<rparr> | None \<Rightarrow> g1);
            g3 = g2\<lparr>priv_positions := []\<rparr>;
            g4 = g3\<lparr>priv_counters := []\<rparr>
        in and_then (fill points g4) process)"

section \<open>advance\<close>

text \<open>
  \<open>dst[i] = v\<close> on a typed array: the array never grows, a store outside it is dropped.
\<close>

definition typed_set :: "'a list \<Rightarrow> int \<Rightarrow> 'a \<Rightarrow> 'a list" where
  "typed_set xs i v = (if 0 \<le> i \<and> i < int (length xs) then xs[nat i := v] else xs)"

text \<open>
  The loop of \<open>memcpy(src, srcBegin, dst, dstOffset, srcLength)\<close>. \<open>advance\<close> also calls
  it with one array as both source and destination; \<open>same\<close> says so, and the loop then
  reads what it has written.
\<close>

function memcpy_loop ::
  "bool \<Rightarrow> jsnum list \<Rightarrow> int \<Rightarrow> jsnum list \<Rightarrow> int \<Rightarrow> int \<Rightarrow> nat \<Rightarrow> jsnum list outcome" where
  "memcpy_loop same src srcBegin dst dstOffset srcEnd i =
     (if int i + srcBegin < srcEnd then
        (case js_at (if same then dst else src) (int i + srcBegin) of
           None \<Rightarrow> Throw MissingSrcValue dst
         | Some srcValue \<Rightarrow>
             memcpy_loop same src srcBegin (typed_set dst (int i + dstOffset) srcValue)
               dstOffset srcEnd (i + 1))
      else Return dst)"
  by pat_completeness auto
termination
  by (relation "measure (\<lambda>(same, src, srcBegin, dst, dstOffset, srcEnd, i).
        nat (srcEnd - srcBegin - int i))") auto

declare memcpy_loop.simps [simp del]

definition memcpy ::
  "bool \<Rightarrow> jsnum list \<Rightarrow> int \<Rightarrow> jsnum list \<Rightarrow> int \<Rightarrow> int \<Rightarrow> jsnum list outcome" where
  "memcpy same src srcBegin dst dstOffset srcLength =
     (if int (length dst) < dstOffset + srcLength then Throw NotEnoughSpace dst
      else memcpy_loop same src srcBegin dst dstOffset (srcBegin + srcLength) 0)"

text \<open>
  The six stores \<open>xs[l - 6] = position.x\<close> ... \<open>xs[l - 1] = position.z\<close>, where \<open>l\<close> is the
  length of the position array.
\<close>

definition store_last :: "int \<Rightarrow> vector3 \<Rightarrow> jsnum list \<Rightarrow> jsnum list" where
  "store_last l position xs =
     (let xs1 = typed_set xs (l - 6) (vx position);
          xs2 = typed_set xs1 (l - 5) (vy position);
          xs3 = typed_set xs2 (l - 4) (vz position);
          xs4 = typed_set xs3 (l - 3) (vx position);
          xs5 = typed_set xs4 (l - 2) (vy position)
      in typed_set xs5 (l - 1) (vz position))"

definition with_position :: "jsnum list \<Rightarrow> attributes \<Rightarrow> attributes" where
  "with_position xs a = a\<lparr>attr_position := (attr_position a)\<lparr>array := xs\<rparr>\<rparr>"

definition with_previous :: "jsnum list \<Rightarrow> attributes \<Rightarrow> attributes" where
  "with_previous xs a = a\<lparr>attr_previous := (attr_previous a)\<lparr>array := xs\<rparr>\<rparr>"

definition with_next :: "jsnum list \<Rightarrow> attributes \<Rightarrow> attributes" where
  "with_next xs a = a\<lparr>attr_next := (attr_next a)\<lparr>array := xs\<rparr>\<rparr>"

definition mark_moved :: "attributes \<Rightarrow> attributes" where
  "mark_moved a =
     a\<lparr>attr_position := (attr_position a)\<lparr>needsUpdate := True\<rparr>,
       attr_previous := (attr_previous a)\<lparr>needsUpdate := True\<rparr>,
       attr_next := (attr_next a)\<lparr>needsUpdate := True\<rparr>\<rparr>"

text \<open>
  \<open>advance(position)\<close>, on the typed arrays of the three attributes. A throw half-way
  leaves the arrays as far as they had been written.
\<close>

definition advance_arrays :: "vector3 \<Rightarrow> attributes \<Rightarrow> attributes outcome" where
  "advance_arrays position a =
     (let positions = array (attr_position a);
          previous = array (attr_previous a);
          nexts = array (attr_next a);
          l = int (length positions)
      in case memcpy False positions 0 previous 0 l of
           Throw e previous' \<Rightarrow> Throw e (with_previous previous' a)
         | Return previous' \<Rightarrow>
             let a1 = with_previous previous' a
             in (case memcpy True positions itemSize_const positions 0 (l - itemSize_const) of
                   Throw e positions' \<Rightarrow> Throw e (with_position positions' a1)
                 | Return positions' \<Rightarrow>
                     let positions'' = store_last l position positions';
                         a2 = with_position positions'' a1
                     in (case memcpy False positions'' itemSize_const nexts 0 (l - itemSize_const) of
                           Throw e nexts' \<Rightarrow> Throw e (with_next nexts' a2)
                         | Return nexts' \<Rightarrow>
                             Return (mark_moved (with_next (store_last l position nexts') a2)))))"

definition advance :: "vector3 \<Rightarrow> geometry \<Rightarrow> geometry outcome" where
  "advance position g =
     (case priv_attributes g of
        None \<Rightarrow> Throw CallSetPointsFirst g
      | Some a \<Rightarrow>
          (case advance_arrays position a of
             Throw e a' \<Rightarrow> Throw e (g\<lparr>priv_attributes := Some a'\<rparr>)
           | Return a' \<Rightarrow> Return (g\<lparr>priv_attributes := Some a'\<rparr>)))"

section \<open>MeshLineRaycast\<close>



record intersection =
  hit_distance :: jsnum
  hit_point :: vector3
  hit_index :: nat


text \<open>
  What a call changes: \<open>raycaster.params.Line\<close> (its threshold, \<open>None\<close> while unset) and
  the list \<open>intersects\<close>.
\<close>

record picking =
  line_threshold :: "jsnum option"
  intersects :: "intersection list"





section \<open>What the code is to compute\<close>

text \<open>
  The definitions from here on are not translated from the source. They say, in closed
  form, what the loops above are proved to compute, and give the statements below their
  vocabulary.
\<close>

subsection \<open>The arrays of a line\<close>

text \<open>
  The six scalars of a point, its coordinates once for each rail; the position array of
  a line; the counter of point \<open>k\<close> among \<open>n\<close>; the flat array of a list of points.
\<close>

definition dup :: "vector3 \<Rightarrow> jsnum list" where
  "dup p = [vx p, vy p, vz p, vx p, vy p, vz p]"

definition positions_of :: "vector3 list \<Rightarrow> jsnum list" where
  "positions_of ps = concat (map dup ps)"

definition counter_at :: "nat \<Rightarrow> nat \<Rightarrow> jsnum" where
  "counter_at n k = Fin (of_nat k / of_nat n)"

definition counters_of :: "nat \<Rightarrow> jsnum list" where
  "counters_of n = concat (map (\<lambda>k. [counter_at n k, counter_at n k]) [0..<n])"

definition flatten :: "vector3 list \<Rightarrow> jsnum list" where
  "flatten ps = concat (map (\<lambda>p. [vx p, vy p, vz p]) ps)"

text \<open>
  Two points are equal when their coordinates are \<open>===\<close>, as \<open>#pointsAreEqual\<close> compares
  them.
\<close>

definition point_eq :: "vector3 \<Rightarrow> vector3 \<Rightarrow> bool" where
  "point_eq p q = (strict_eq (vx p) (vx q) \<and> strict_eq (vy p) (vy q) \<and> strict_eq (vz p) (vz q))"

text \<open>
  The quotient \<open>j / (pointCount - 1)\<close> for a line of \<open>n\<close> points, the width of point \<open>j\<close>
  under the callback in force, and the two triangles of segment \<open>j\<close>.
\<close>

definition u_at :: "nat \<Rightarrow> nat \<Rightarrow> jsnum" where
  "u_at n j = num_div (of_index (int j)) (of_index (int n - 1))"

definition width_at :: "(jsnum \<Rightarrow> jsnum) option \<Rightarrow> nat \<Rightarrow> nat \<Rightarrow> jsnum" where
  "width_at cb n j = (case cb of None \<Rightarrow> Fin 1 | Some f \<Rightarrow> f (u_at n j))"

definition triangles :: "nat \<Rightarrow> nat list" where
  "triangles j = (let n = 2 * j in [n, n + 1, n + 2, n + 2, n + 1, n + 3])"

text \<open>What the loop of \<open>#process\<close> appends from index \<open>j\<close> on, for the points \<open>ps\<close>.\<close>

definition loop_result :: "vector3 list \<Rightarrow> nat \<Rightarrow> geometry \<Rightarrow> geometry" where
  "loop_result ps j g =
     g\<lparr>priv_side := priv_side g @ concat (map (\<lambda>k. [Fin 1, Fin (- 1)]) [j..<length ps]),
       priv_width := priv_width g @
         concat (map (\<lambda>k. [width_at (widthCallback g) (length ps) k,
                             width_at (widthCallback g) (length ps) k]) [j..<length ps]),
       priv_uvs := priv_uvs g @
         concat (map (\<lambda>k. [u_at (length ps) k, Fin 0, u_at (length ps) k, Fin 1]) [j..<length ps]),
       priv_previous := priv_previous g @
         concat (map (\<lambda>k. if Suc k < length ps then dup (ps ! k) else []) [j..<length ps]),
       priv_indices_array := priv_indices_array g @
         concat (map (\<lambda>k. if Suc k < length ps then triangles k else []) [j..<length ps]),
       priv_next := priv_next g @
         concat (map (\<lambda>k. if 0 < k then dup (ps ! k) else []) [j..<length ps]),
       callback_log := callback_log g @
         (case widthCallback g of None \<Rightarrow> [] | Some f \<Rightarrow> map (u_at (length ps)) [j..<length ps])\<rparr>"

text \<open>The arrays that \<open>#process\<close> leaves for the points \<open>ps\<close>.\<close>

definition sides_of :: "nat \<Rightarrow> jsnum list" where
  "sides_of n = concat (map (\<lambda>k. [Fin 1, Fin (- 1)]) [0..<n])"

definition widths_of :: "(jsnum \<Rightarrow> jsnum) option \<Rightarrow> nat \<Rightarrow> jsnum list" where
  "widths_of cb n = concat (map (\<lambda>k. [width_at cb n k, width_at cb n k]) [0..<n])"

definition uvs_of :: "nat \<Rightarrow> jsnum list" where
  "uvs_of n = concat (map (\<lambda>k. [u_at n k, Fin 0, u_at n k, Fin 1]) [0..<n])"

definition indices_of :: "nat \<Rightarrow> nat list" where
  "indices_of n = concat (map triangles [0..<n - 1])"

definition previous_of :: "vector3 list \<Rightarrow> jsnum list" where
  "previous_of ps =
     dup (if point_eq (ps ! 0) (ps ! (length ps - 1)) then ps ! (length ps - 2) else ps ! 0) @
     positions_of (butlast ps)"

definition next_of :: "vector3 list \<Rightarrow> jsnum list" where
  "next_of ps =
     positions_of (tl ps) @
     dup (if point_eq (ps ! (length ps - 1)) (ps ! 0) then ps ! 1 else ps ! (length ps - 1))"

text \<open>The arguments the width callback is invoked with during one tessellation.\<close>

definition invocations :: "(jsnum \<Rightarrow> jsnum) option \<Rightarrow> nat \<Rightarrow> jsnum list" where
  "invocations cb n = (case cb of None \<Rightarrow> [] | Some f \<Rightarrow> map (u_at n) [0..<n])"

definition tessellated :: "vector3 list \<Rightarrow> geometry \<Rightarrow> geometry" where
  "tessellated ps g =
     g\<lparr>priv_previous := previous_of ps,
       priv_next := next_of ps,
       priv_side := sides_of (length ps),
       priv_width := widths_of (widthCallback g) (length ps),
       priv_indices_array := indices_of (length ps),
       priv_uvs := uvs_of (length ps),
       callback_log := callback_log g @ invocations (widthCallback g) (length ps)\<rparr>"

text \<open>
  \<open>#process\<close> gets through a line that is not empty and, when its first and last point
  are equal, has two points at least.
\<close>

definition tessellable :: "vector3 list \<Rightarrow> bool" where
  "tessellable ps = (ps \<noteq> [] \<and> (point_eq (ps ! 0) (ps ! (length ps - 1)) \<longrightarrow> 2 \<le> length ps))"

subsection \<open>The points of an argument\<close>

text \<open>
  The points of a flat array, three scalars each; the points an argument of \<open>setPoints\<close>
  stands for; and the arguments that stand for all their scalars: any array of
  \<open>Vector3\<close>, a flat array of a multiple of three numbers.
\<close>

fun unflatten :: "jsnum list \<Rightarrow> vector3 list" where
  "unflatten (a # b # c # xs) = Vector3 a b c # unflatten xs"
| "unflatten _ = []"

fun point_list :: "points_arg \<Rightarrow> vector3 list" where
  "point_list (Vector3Array ps) = ps"
| "point_list (NumberArray xs) = unflatten xs"
| "point_list NotAnArray = []"

fun well_formed :: "points_arg \<Rightarrow> bool" where
  "well_formed (Vector3Array ps) = True"
| "well_formed (NumberArray xs) = (length xs mod 3 = 0)"
| "well_formed NotAnArray = False"

text \<open>The geometry when \<open>setPoints\<close> calls \<open>#process\<close>.\<close>

definition prepared :: "points_arg \<Rightarrow> (jsnum \<Rightarrow> jsnum) option \<Rightarrow> geometry \<Rightarrow> geometry" where
  "prepared points wcb g =
     g\<lparr>priv_points := points,
       widthCallback := (case wcb of Some f \<Rightarrow> Some f | None \<Rightarrow> widthCallback g),
       priv_positions := positions_of (point_list points),
       priv_counters := counters_of (length (point_list points))\<rparr>"

subsection \<open>The attributes\<close>

text \<open>
  Attributes sized for a line of \<open>n\<close> points, with the counters of such a line; a
  geometry is consistent when its attributes, if any, are sized for the number of points
  its position array holds. Every geometry reached from a new one is consistent (lemma
  \<open>after_final\<close>).
\<close>

definition attributes_for :: "nat \<Rightarrow> attributes \<Rightarrow> bool" where
  "attributes_for n a =
     (0 < n \<and>
      itemSize (attr_position a) = 3 \<and>
      itemSize (attr_previous a) = 3 \<and>
      itemSize (attr_next a) = 3 \<and>
      itemSize (attr_side a) = 1 \<and>
      itemSize (attr_width a) = 1 \<and>
      itemSize (attr_uv a) = 2 \<and>
      itemSize (attr_index a) = 1 \<and>
      itemSize (attr_counters a) = 1 \<and>
      length (array (attr_position a)) = 6 * n \<and>
      length (array (attr_previous a)) = 6 * n \<and>
      length (array (attr_next a)) = 6 * n \<and>
      length (array (attr_side a)) = 2 * n \<and>
      length (array (attr_width a)) = 2 * n \<and>
      length (array (attr_uv a)) = 4 * n \<and>
      length (array (attr_index a)) = 6 * (n - 1) \<and>
      array (attr_counters a) = counters_of n)"

definition point_count :: "attributes \<Rightarrow> nat" where
  "point_count a = length (array (attr_position a)) div 6"

definition consistent :: "geometry \<Rightarrow> bool" where
  "consistent g =
     (case priv_attributes g of None \<Rightarrow> True | Some a \<Rightarrow> attributes_for (point_count a) a)"

text \<open>
  The attributes after the seven \<open>copyArray\<close> calls; the geometry after a \<open>setPoints\<close>
  that returns having tessellated; the outcome with the stored points left aside.
\<close>

definition refreshed :: "geometry \<Rightarrow> attributes \<Rightarrow> attributes" where
  "refreshed g a =
     a\<lparr>attr_position := (attr_position a)\<lparr>array := priv_positions g, needsUpdate := True\<rparr>,
       attr_previous := (attr_previous a)\<lparr>array := priv_previous g, needsUpdate := True\<rparr>,
       attr_next := (attr_next a)\<lparr>array := priv_next g, needsUpdate := True\<rparr>,
       attr_side := (attr_side a)\<lparr>array := priv_side g, needsUpdate := True\<rparr>,
       attr_width := (attr_width a)\<lparr>array := priv_width g, needsUpdate := True\<rparr>,
       attr_uv := (attr_uv a)\<lparr>array := priv_uvs g, needsUpdate := True\<rparr>,
       attr_index := (attr_index a)\<lparr>array := to_uint16 (priv_indices_array g),
                                        needsUpdate := True\<rparr>\<rparr>"

definition forget_points :: "geometry \<Rightarrow> geometry" where
  "forget_points g = g\<lparr>priv_points := NotAnArray\<rparr>"

definition stored :: "points_arg \<Rightarrow> (jsnum \<Rightarrow> jsnum) option \<Rightarrow> geometry \<Rightarrow> geometry" where
  "stored points wcb g =
     (let t = tessellated (point_list points) (prepared points wcb g)
      in case priv_attributes g of
           None \<Rightarrow> create_attributes t
         | Some a \<Rightarrow>
             if point_count a = length (point_list points)
             then t\<lparr>priv_attributes := Some (refreshed t a)\<rparr>
             else create_attributes t)"

text \<open>The six scalars of point \<open>j\<close> in an array of three components a vertex.\<close>

definition point_block :: "nat \<Rightarrow> 'a list \<Rightarrow> 'a list" where
  "point_block j xs = take 6 (drop (6 * j) xs)"

text \<open>The attributes after \<open>advance(p)\<close>.\<close>

definition advanced :: "vector3 \<Rightarrow> attributes \<Rightarrow> attributes" where
  "advanced p a =
     a\<lparr>attr_position := (attr_position a)
          \<lparr>array := drop 6 (array (attr_position a)) @ dup p, needsUpdate := True\<rparr>,
       attr_previous := (attr_previous a)
          \<lparr>array := array (attr_position a), needsUpdate := True\<rparr>,
       attr_next := (attr_next a)
          \<lparr>array := drop 6 (drop 6 (array (attr_position a)) @ dup p) @ dup p,
            needsUpdate := True\<rparr>\<rparr>"

subsection \<open>Histories of calls\<close>

text \<open>
  A geometry is used through \<open>setPoints\<close> and \<open>advance\<close>. \<open>after cs g\<close> is the geometry
  after the calls \<open>cs\<close>, each on what the one before left, whether it returned or threw.
  \<open>initialised cs g\<close> holds when one of these calls was a \<open>setPoints\<close> that returned having
  tessellated, that is on an array that is not empty.
\<close>

datatype call = SetPoints points_arg "(jsnum \<Rightarrow> jsnum) option" | Advance vector3

fun perform :: "call \<Rightarrow> geometry \<Rightarrow> geometry outcome" where
  "perform (SetPoints points wcb) g = setPoints points wcb g"
| "perform (Advance p) g = advance p g"

fun tessellates :: "call \<Rightarrow> geometry \<Rightarrow> bool" where
  "tessellates (SetPoints points wcb) g =
     (returns (setPoints points wcb g) \<and> points_length points \<noteq> 0)"
| "tessellates (Advance p) g = False"

fun after :: "call list \<Rightarrow> geometry \<Rightarrow> geometry" where
  "after [] g = g"
| "after (c # cs) g = after cs (final (perform c g))"

fun initialised :: "call list \<Rightarrow> geometry \<Rightarrow> bool" where
  "initialised [] g = False"
| "initialised (c # cs) g = (tessellates c g \<or> initialised cs (final (perform c g)))"

subsection \<open>Picking\<close>


definition threshold_of :: "picking \<Rightarrow> jsnum" where
  "threshold_of st = (case line_threshold st of Some t \<Rightarrow> t | None \<Rightarrow> Fin 1)"














section \<open>The code in closed form\<close>

subsection \<open>Reading the position array\<close>

lemma length_dup [simp]: "length (dup p) = 6"
  by (simp add: dup_def)

lemma length_positions_of [simp]: "length (positions_of ps) = 6 * length ps"
  by (induction ps) (simp_all add: positions_of_def)

lemma nth_concat_uniform:
  "\<forall>xs \<in> set xss. length xs = m \<Longrightarrow> i < length xss \<Longrightarrow> c < m \<Longrightarrow>
   concat xss ! (i * m + c) = xss ! i ! c"
proof (induction xss arbitrary: i)
  case Nil
  then show ?case by simp
next
  case (Cons xs xss)
  show ?case
  proof (cases i)
    case 0
    with Cons.prems show ?thesis by (simp add: nth_append)
  next
    case (Suc k)
    with Cons.prems have "concat xss ! (k * m + c) = xss ! k ! c"
      by (intro Cons.IH) auto
    with Suc Cons.prems show ?thesis by (simp add: nth_append add.assoc)
  qed
qed

lemma positions_of_nth:
  assumes "j < length ps" and "c < 6"
  shows "positions_of ps ! (j * 6 + c) = dup (ps ! j) ! c"
  using nth_concat_uniform [of "map dup ps" 6 j c] assms
  by (simp add: positions_of_def)

lemma js_at_int: "js_at xs (int k) = (if k < length xs then Some (xs ! k) else None)"
  by (simp add: js_at_def)

lemma js_at_positions_of:
  assumes "j < length ps" and "c < 6"
  shows "js_at (positions_of ps) (int j * 6 + int c) = Some (dup (ps ! j) ! c)"
proof -
  have eq: "int j * 6 + int c = int (j * 6 + c)" by simp
  have "j * 6 + c < 6 * length ps" using assms by linarith
  then have "js_at (positions_of ps) (int (j * 6 + c)) = Some (dup (ps ! j) ! c)"
    using positions_of_nth [OF assms] by (simp only: js_at_int length_positions_of if_True)
  then show ?thesis unfolding eq .
qed

subsection \<open>The two loops of setPoints\<close>

text \<open>
  Over an array of \<open>Vector3\<close> the loop appends the positions and counters of its points;
  over the flat array of the same points the other loop does the same, step for step.
\<close>

lemma vector_loop_step:
  assumes "j < length ps"
  shows "vector_loop ps j g =
           vector_loop ps (Suc j)
             (g\<lparr>priv_positions := priv_positions g @ dup (ps ! j),
                priv_counters := priv_counters g @
                  [counter_at (length ps) j, counter_at (length ps) j]\<rparr>)"
proof -
  have c: "num_div (of_index (int j)) (of_index (int (length ps))) = counter_at (length ps) j"
    using assms by (auto simp: of_index_def counter_at_def)
  show ?thesis
    using assms by (subst vector_loop.simps) (simp add: js_at_int c dup_def Let_def)
qed

lemma vector_loop_closed:
  "j \<le> length ps \<Longrightarrow>
   vector_loop ps j g =
     Return (g\<lparr>priv_positions := priv_positions g @ positions_of (drop j ps),
               priv_counters := priv_counters g @
                 concat (map (\<lambda>k. [counter_at (length ps) k, counter_at (length ps) k])
                   [j..<length ps])\<rparr>)"
proof (induction "length ps - j" arbitrary: j g)
  case 0
  then have "j = length ps" by simp
  then show ?case by (subst vector_loop.simps) (simp add: positions_of_def)
next
  case (Suc d)
  then have lt: "j < length ps" by simp
  have dr: "drop j ps = ps ! j # drop (Suc j) ps"
    using lt by (simp add: Cons_nth_drop_Suc)
  have up: "[j..<length ps] = j # [Suc j..<length ps]"
    using lt by (simp add: upt_conv_Cons)
  have "d = length ps - Suc j" using Suc.hyps(2) by simp
  from Suc.hyps(1) [OF this] lt show ?case
    by (simp add: vector_loop_step [OF lt] dr up positions_of_def)
qed


lemma length_flatten [simp]: "length (flatten ps) = 3 * length ps"
  by (induction ps) (simp_all add: flatten_def)

lemma js_at_flatten:
  assumes "j < length ps" and "c < 3"
  shows "js_at (flatten ps) (int (3 * j) + int c) = Some ([vx (ps ! j), vy (ps ! j), vz (ps ! j)] ! c)"
proof -
  have eq: "int (3 * j) + int c = int (j * 3 + c)" by simp
  have lt: "j * 3 + c < 3 * length ps" using assms by linarith
  have "flatten ps ! (j * 3 + c) = [vx (ps ! j), vy (ps ! j), vz (ps ! j)] ! c"
    using nth_concat_uniform [of "map (\<lambda>p. [vx p, vy p, vz p]) ps" 3 j c] assms
    by (simp add: flatten_def)
  with lt have "js_at (flatten ps) (int (j * 3 + c)) = Some ([vx (ps ! j), vy (ps ! j), vz (ps ! j)] ! c)"
    by (simp only: js_at_int length_flatten if_True)
  then show ?thesis unfolding eq .
qed

lemma number_loop_step:
  assumes "j < length ps"
  shows "number_loop (flatten ps) (3 * j) g =
           number_loop (flatten ps) (3 * Suc j)
             (g\<lparr>priv_positions := priv_positions g @ dup (ps ! j),
                priv_counters := priv_counters g @
                  [counter_at (length ps) j, counter_at (length ps) j]\<rparr>)"
proof -
  have c: "num_div (of_index (int (3 * j))) (of_index (int (length (flatten ps)))) =
             counter_at (length ps) j"
    using assms by (auto simp: of_index_def counter_at_def)
  have a0: "js_at (flatten ps) (int (3 * j) + 0) = Some (vx (ps ! j))"
    using js_at_flatten [OF assms, of 0] by simp
  have a1: "js_at (flatten ps) (int (3 * j) + 1) = Some (vy (ps ! j))"
    using js_at_flatten [OF assms, of 1] by simp
  have a2: "js_at (flatten ps) (int (3 * j) + 2) = Some (vz (ps ! j))"
    using js_at_flatten [OF assms, of 2] by simp
  have lt: "3 * j < length (flatten ps)" using assms by simp
  have s: "3 * j + 3 = 3 * Suc j" by simp
  show ?thesis
    by (subst number_loop.simps) (simp only: lt if_True a0 a1 a2 c Let_def s, simp add: dup_def)
qed

lemma number_loop_vector_loop:
  "j \<le> length ps \<Longrightarrow> number_loop (flatten ps) (3 * j) g = vector_loop ps j g"
proof (induction "length ps - j" arbitrary: j g)
  case 0
  then have "j = length ps" by simp
  then show ?case
    by (subst number_loop.simps, subst vector_loop.simps) simp
next
  case (Suc d)
  then have lt: "j < length ps" by simp
  have "d = length ps - Suc j" using Suc.hyps(2) by simp
  from Suc.hyps(1) [OF this] lt show ?case
    by (simp only: number_loop_step [OF lt] vector_loop_step [OF lt] Suc_leI)
qed


subsection \<open>The tessellation\<close>

lemma clonePoint_positions_of:
  assumes "priv_positions g = positions_of ps" and "j < length ps"
  shows "clonePoint g (int j) = Inr (vx (ps ! j), vy (ps ! j), vz (ps ! j))"
proof -
  have a0: "js_at (positions_of ps) (int j * 6 + 0) = Some (vx (ps ! j))"
    using js_at_positions_of [OF assms(2), of 0] by (simp add: dup_def)
  have a1: "js_at (positions_of ps) (int j * 6 + 1) = Some (vy (ps ! j))"
    using js_at_positions_of [OF assms(2), of 1] by (simp add: dup_def)
  have a2: "js_at (positions_of ps) (int j * 6 + 2) = Some (vz (ps ! j))"
    using js_at_positions_of [OF assms(2), of 2] by (simp add: dup_def)
  show ?thesis
    by (simp only: clonePoint_def itemSize_const_def Let_def assms(1) a0 a1 a2) simp
qed

lemma clonePoint_negative:
  "i < 0 \<Longrightarrow> clonePoint g i = Inl PointMissing"
  by (simp add: clonePoint_def itemSize_const_def js_at_def)

lemma pointsAreEqual_positions_of:
  assumes "priv_positions g = positions_of ps" and "i < length ps" and "j < length ps"
  shows "pointsAreEqual g (int i) (int j) = point_eq (ps ! i) (ps ! j)"
proof -
  have a: "js_at (positions_of ps) (int k * 6 + 0) = Some (vx (ps ! k))"
          "js_at (positions_of ps) (int k * 6 + 1) = Some (vy (ps ! k))"
          "js_at (positions_of ps) (int k * 6 + 2) = Some (vz (ps ! k))"
    if "k < length ps" for k
    using js_at_positions_of [OF that, of 0] js_at_positions_of [OF that, of 1]
      js_at_positions_of [OF that, of 2] by (simp_all add: dup_def)
  show ?thesis
    by (simp only: pointsAreEqual_def itemSize_const_def Let_def assms(1) a [OF assms(2)]
        a [OF assms(3)] strict_eq_undef.simps point_eq_def)
qed

lemma loop_body_closed:
  assumes "priv_positions g = positions_of ps" and "j < length ps"
  shows "loop_body (int (length ps)) j g =
     Return (g\<lparr>priv_side := priv_side g @ [Fin 1, Fin (- 1)],
               priv_width := priv_width g @
                 [width_at (widthCallback g) (length ps) j, width_at (widthCallback g) (length ps) j],
               priv_uvs := priv_uvs g @
                 [u_at (length ps) j, Fin 0, u_at (length ps) j, Fin 1],
               priv_previous := priv_previous g @ (if Suc j < length ps then dup (ps ! j) else []),
               priv_indices_array := priv_indices_array g @
                 (if Suc j < length ps then triangles j else []),
               priv_next := priv_next g @ (if 0 < j then dup (ps ! j) else []),
               callback_log := callback_log g @
                 (case widthCallback g of None \<Rightarrow> [] | Some f \<Rightarrow> [u_at (length ps) j])\<rparr>)"
proof -
  have cp: "clonePoint g' (int j) = Inr (vx (ps ! j), vy (ps ! j), vz (ps ! j))"
    if "priv_positions g' = positions_of ps" for g'
    using clonePoint_positions_of [OF that assms(2)] .
  have lt: "(int j < int (length ps) - 1) = (Suc j < length ps)" by linarith
  show ?thesis
    unfolding loop_body_def
    by (cases "widthCallback g")
       (simp_all add: eval_width_def Let_def cp assms(1) lt push_previous_def push_next_def
          u_at_def width_at_def triangles_def dup_def mult.commute)
qed


lemma process_loop_closed:
  "priv_positions g = positions_of ps \<Longrightarrow> j \<le> length ps \<Longrightarrow>
   process_loop (int (length ps)) j g = Return (loop_result ps j g)"
proof (induction "length ps - j" arbitrary: j g)
  case 0
  then have "j = length ps" by simp
  then show ?case
    by (subst process_loop.simps) (simp add: loop_result_def split: option.split)
next
  case (Suc d)
  then have lt: "j < length ps" by simp
  have up: "[j..<length ps] = j # [Suc j..<length ps]"
    using lt by (simp add: upt_conv_Cons)
  have d: "d = length ps - Suc j" using Suc.hyps(2) by simp
  note body = loop_body_closed [OF Suc.prems(1) lt]
  have ih: "process_loop (int (length ps)) (Suc j) g' = Return (loop_result ps (Suc j) g')"
    if "priv_positions g' = positions_of ps" for g'
    using Suc.hyps(1) [OF d that] lt by simp
  show ?case
    by (subst process_loop.simps)
       (simp add: lt body ih Suc.prems(1) loop_result_def up split: option.split)
qed


lemma concat_map_guard_upper:
  "concat (map (\<lambda>k. if Suc k < n then f k else []) [0..<n]) = concat (map f [0..<n - 1])"
proof (cases n)
  case 0
  then show ?thesis by simp
next
  case (Suc m)
  have "map (\<lambda>k. if Suc k < Suc m then f k else []) [0..<m] = map f [0..<m]"
    by (simp add: map_eq_conv)
  then have "concat (map (\<lambda>k. if Suc k < Suc m then f k else []) [0..<m]) = concat (map f [0..<m])"
    by (rule arg_cong)
  with Suc show ?thesis by simp
qed

lemma concat_map_guard_lower:
  "0 < n \<Longrightarrow> concat (map (\<lambda>k. if 0 < k then f k else []) [0..<n]) = concat (map f [1..<n])"
proof -
  assume "0 < n"
  then have up: "[0..<n] = 0 # [1..<n]" by (simp add: upt_conv_Cons)
  have "map (\<lambda>k. if 0 < k then f k else []) [1..<n] = map f [1..<n]"
    by (simp add: map_eq_conv)
  then have "concat (map (\<lambda>k. if 0 < k then f k else []) [1..<n]) = concat (map f [1..<n])"
    by (rule arg_cong)
  then show ?thesis unfolding up by simp
qed

lemma map_nth_butlast: "map (\<lambda>k. f (ps ! k)) [0..<length ps - 1] = map f (butlast ps)"
  by (rule nth_equalityI) (simp_all add: nth_butlast)

lemma map_nth_tl: "map (\<lambda>k. f (ps ! k)) [1..<length ps] = map f (tl ps)"
  by (rule nth_equalityI) (simp_all add: nth_tl)

lemma strict_eq_sym: "strict_eq a b = strict_eq b a"
  by (cases a; cases b) auto

lemma point_eq_sym: "point_eq p q = point_eq q p"
  by (simp add: point_eq_def strict_eq_sym [of "vx p"] strict_eq_sym [of "vy p"]
      strict_eq_sym [of "vz p"])

lemma process_closed:
  assumes pos: "priv_positions g = positions_of ps" and t: "tessellable ps"
  shows "process g = store_attributes (tessellated ps g)"
proof -
  define g0 where "g0 = g\<lparr>priv_previous := [], priv_next := [], priv_side := [], priv_width := [],
                 priv_indices_array := [], priv_uvs := []\<rparr>"
  define closed where "closed = point_eq (ps ! 0) (ps ! (length ps - 1))"
  have n: "1 \<le> length ps" and n2: "closed \<Longrightarrow> 2 \<le> length ps"
    using t by (auto simp: tessellable_def closed_def Suc_le_eq)
  have sym: "point_eq (ps ! (length ps - 1)) (ps ! 0) = closed"
    unfolding closed_def by (rule point_eq_sym)
  have pc: "int (length (priv_positions g)) div itemSize_const = int (length ps)"
    by (simp add: pos itemSize_const_def)
  have i1: "int (length ps) - 1 = int (length ps - 1)"
    using n by simp
  have i2: "int (length ps) - 2 = int (length ps - 2)" if closed
    using n2 [OF that] by simp
  have lt0: "0 < length ps" and ltl: "length ps - 1 < length ps"
    using n by auto
  have lt1: "1 < length ps" and ltp: "length ps - 2 < length ps" if closed
    using n2 [OF that] by auto
  have eq1: "pointsAreEqual g' 0 (int (length ps) - 1) = closed"
    and eq2: "pointsAreEqual g' (int (length ps) - 1) 0 = closed"
    if "priv_positions g' = positions_of ps" for g'
    unfolding i1
    using pointsAreEqual_positions_of [OF that lt0 ltl]
      pointsAreEqual_positions_of [OF that ltl lt0] sym by (simp_all add: closed_def)
  have cp: "clonePoint g' (int k) = Inr (vx (ps ! k), vy (ps ! k), vz (ps ! k))"
    if "priv_positions g' = positions_of ps" "k < length ps" for g' k
    using clonePoint_positions_of [OF that] .
  have cp0: "clonePoint g' 0 = Inr (vx (ps ! 0), vy (ps ! 0), vz (ps ! 0))"
    and cpl: "clonePoint g' (int (length ps) - 1) =
      Inr (vx (ps ! (length ps - 1)), vy (ps ! (length ps - 1)), vz (ps ! (length ps - 1)))"
    if "priv_positions g' = positions_of ps" for g'
    using cp [OF that lt0] cp [OF that ltl] unfolding i1 by simp_all
  have cp1: "clonePoint g' 1 = Inr (vx (ps ! 1), vy (ps ! 1), vz (ps ! 1))"
    and cpp: "clonePoint g' (int (length ps) - 2) =
      Inr (vx (ps ! (length ps - 2)), vy (ps ! (length ps - 2)), vz (ps ! (length ps - 2)))"
    if "priv_positions g' = positions_of ps" closed for g'
    using cp [OF that(1) lt1 [OF that(2)]] cp [OF that(1) ltp [OF that(2)]]
    unfolding i2 [OF that(2)] by simp_all
  have loop: "process_loop (int (length ps)) 0 g' = Return (loop_result ps 0 g')"
    if "priv_positions g' = positions_of ps" for g'
    using process_loop_closed [OF that, of 0] by simp
  have prev: "concat (map (\<lambda>k. if Suc k < length ps then dup (ps ! k) else []) [0..<length ps]) =
      positions_of (butlast ps)"
    by (simp only: concat_map_guard_upper map_nth_butlast positions_of_def)
  have nxt: "concat (map (\<lambda>k. if 0 < k then dup (ps ! k) else []) [0..<length ps]) =
      positions_of (tl ps)"
    by (simp only: concat_map_guard_lower [OF lt0] map_nth_tl positions_of_def)
  have idx: "concat (map (\<lambda>k. if Suc k < length ps then triangles k else []) [0..<length ps]) =
      indices_of (length ps)"
    by (simp only: concat_map_guard_upper indices_of_def)
  define pt0 where "pt0 = (if closed then ps ! (length ps - 2) else ps ! 0)"
  define ptn where "ptn = (if closed then ps ! 1 else ps ! (length ps - 1))"
  define g1 where "g1 = push_previous (vx pt0, vy pt0, vz pt0) g0"
  define g2 where "g2 = loop_result ps 0 g1"
  define g3 where "g3 = push_next (vx ptn, vy ptn, vz ptn) g2"
  have p0: "priv_positions g0 = positions_of ps" by (simp add: g0_def pos)
  have p1: "priv_positions g1 = positions_of ps" by (simp add: g1_def push_previous_def p0)
  have p2: "priv_positions g2 = positions_of ps" by (simp add: g2_def loop_result_def p1)
  have s1: "(case clonePoint g0 (if pointsAreEqual g0 0 (int (length ps) - 1) then int (length ps) - 2 else 0) of
              Inl e \<Rightarrow> Throw e g0
            | Inr point \<Rightarrow> Return (push_previous point g0)) = Return g1"
    by (cases closed) (simp_all add: eq1 [OF p0] cp0 [OF p0] cpp [OF p0] g1_def pt0_def)
  have s2: "process_loop (int (length ps)) 0 g1 = Return g2"
    by (simp add: loop [OF p1] g2_def)
  have s3: "(case clonePoint g2 (if pointsAreEqual g2 (int (length ps) - 1) 0 then 1 else int (length ps) - 1) of
              Inl e \<Rightarrow> Throw e g2
            | Inr point \<Rightarrow> Return (push_next point g2)) = Return g3"
    by (cases closed) (simp_all add: eq2 [OF p2] cp1 [OF p2] cpl [OF p2] g3_def ptn_def)
  have "process g = store_attributes g3"
    unfolding process_def pc Let_def g0_def [symmetric]
    by (simp only: s1 and_then.simps s2 s3)
  moreover have sym': "point_eq (ps ! (length ps - Suc 0)) (ps ! 0) =
      point_eq (ps ! 0) (ps ! (length ps - Suc 0))"
    by (rule point_eq_sym)
  have "g3 = tessellated ps g"
    by (rule geometry.equality)
       (simp_all add: g3_def g2_def g1_def g0_def push_next_def push_previous_def loop_result_def
          tessellated_def prev nxt idx previous_of_def next_of_def sides_of_def widths_of_def
          uvs_of_def invocations_def pt0_def ptn_def dup_def closed_def sym')
  ultimately show ?thesis by simp
qed

lemma process_single_throws:
  assumes pos: "priv_positions g = positions_of [p]" and eq: "point_eq p p"
  shows "process g = Throw PointMissing
           (g\<lparr>priv_previous := [], priv_next := [], priv_side := [], priv_width := [],
              priv_indices_array := [], priv_uvs := []\<rparr>)"
proof -
  define g0 where "g0 = g\<lparr>priv_previous := [], priv_next := [], priv_side := [], priv_width := [],
                 priv_indices_array := [], priv_uvs := []\<rparr>"
  have p0: "priv_positions g0 = positions_of [p]" by (simp add: g0_def pos)
  have pc: "int (length (priv_positions g)) div itemSize_const = 1"
    by (simp add: pos itemSize_const_def)
  have "pointsAreEqual g0 (int 0) (int 0) = point_eq p p"
    using pointsAreEqual_positions_of [OF p0, of 0 0] by simp
  then have e: "pointsAreEqual g0 0 (1 - 1)" using eq by simp
  have c: "clonePoint g0 (1 - 2) = Inl PointMissing"
    by (rule clonePoint_negative) simp
  show ?thesis
    unfolding process_def pc Let_def g0_def [symmetric]
    by (simp only: e if_True c sum.case and_then.simps)
qed


subsection \<open>setPoints up to the attributes\<close>

lemma flatten_unflatten: "length xs mod 3 = 0 \<Longrightarrow> flatten (unflatten xs) = xs"
proof (induction xs rule: unflatten.induct)
  case (1 a b c xs)
  then show ?case by (simp add: flatten_def)
qed (simp_all add: flatten_def)

lemma length_unflatten: "length xs mod 3 = 0 \<Longrightarrow> 3 * length (unflatten xs) = length xs"
  using length_flatten [of "unflatten xs"] by (simp add: flatten_unflatten)

lemma fill_closed:
  assumes "well_formed points"
  shows "fill points g =
           Return (g\<lparr>priv_positions := priv_positions g @ positions_of (point_list points),
                     priv_counters := priv_counters g @ counters_of (length (point_list points))\<rparr>)"
proof (cases points)
  case (Vector3Array ps)
  show ?thesis
  proof (cases "ps = []")
    case True
    then show ?thesis
      using Vector3Array
      by (simp add: fill_def positions_of_def counters_of_def number_loop.simps [of "[]"])
  next
    case False
    then show ?thesis
      using Vector3Array vector_loop_closed [of 0 ps g]
      by (simp add: fill_def counters_of_def)
  qed
next
  case (NumberArray xs)
  with assms have m: "length xs mod 3 = 0" by simp
  have "number_loop (flatten (unflatten xs)) (3 * 0) g = vector_loop (unflatten xs) 0 g"
    by (rule number_loop_vector_loop) simp
  then have "number_loop xs 0 g = vector_loop (unflatten xs) 0 g"
    by (simp add: flatten_unflatten [OF m])
  then show ?thesis
    using NumberArray vector_loop_closed [of 0 "unflatten xs" g]
    by (simp add: fill_def counters_of_def)
next
  case NotAnArray
  with assms show ?thesis by simp
qed

lemma setPoints_process:
  assumes "well_formed points" and "point_list points \<noteq> []"
  shows "setPoints points wcb g = process (prepared points wcb g)"
proof -
  have ne: "points \<noteq> NotAnArray" "points_length points \<noteq> 0"
    using assms by (cases points; auto)+
  have "(case wcb of None \<Rightarrow> g\<lparr>priv_points := points\<rparr>
          | Some f \<Rightarrow> g\<lparr>priv_points := points, widthCallback := Some f\<rparr>) =
        g\<lparr>priv_points := points,
          widthCallback := (case wcb of Some f \<Rightarrow> Some f | None \<Rightarrow> widthCallback g)\<rparr>"
    by (cases wcb) simp_all
  then show ?thesis
    unfolding setPoints_def Let_def
    by (simp add: ne fill_closed [OF assms(1)] prepared_def)
qed

lemma setPoints_closed:
  assumes "well_formed points" and "tessellable (point_list points)"
  shows "setPoints points wcb g =
           store_attributes (tessellated (point_list points) (prepared points wcb g))"
proof -
  have "point_list points \<noteq> []" using assms(2) by (simp add: tessellable_def)
  from setPoints_process [OF assms(1) this] show ?thesis
    by (simp add: process_closed [OF _ assms(2)] prepared_def)
qed


subsection \<open>Storing the attributes\<close>

lemma length_concat_map_const:
  "(\<And>x. length (f x) = m) \<Longrightarrow> length (concat (map f xs)) = m * length xs"
  by (induction xs) simp_all

lemma length_counters_of [simp]: "length (counters_of n) = 2 * n"
  using length_concat_map_const [of "\<lambda>k. [counter_at n k, counter_at n k]" 2 "[0..<n]"]
  by (simp add: counters_of_def)

lemma length_sides_of [simp]: "length (sides_of n) = 2 * n"
  using length_concat_map_const [of "\<lambda>k. [Fin 1, Fin (- 1)]" 2 "[0..<n]"]
  by (simp add: sides_of_def)

lemma length_widths_of [simp]: "length (widths_of cb n) = 2 * n"
  using length_concat_map_const [of "\<lambda>k. [width_at cb n k, width_at cb n k]" 2 "[0..<n]"]
  by (simp add: widths_of_def)

lemma length_uvs_of [simp]: "length (uvs_of n) = 4 * n"
  using length_concat_map_const [of "\<lambda>k. [u_at n k, Fin 0, u_at n k, Fin 1]" 4 "[0..<n]"]
  by (simp add: uvs_of_def)

lemma length_triangles [simp]: "length (triangles j) = 6"
  by (simp add: triangles_def Let_def)

lemma length_indices_of [simp]: "length (indices_of n) = 6 * (n - 1)"
  using length_concat_map_const [of triangles 6 "[0..<n - 1]"]
  by (simp add: indices_of_def)

lemma length_previous_of [simp]: "ps \<noteq> [] \<Longrightarrow> length (previous_of ps) = 6 * length ps"
  by (cases ps rule: rev_cases) (simp_all add: previous_of_def)

lemma length_next_of [simp]: "ps \<noteq> [] \<Longrightarrow> length (next_of ps) = 6 * length ps"
  by (cases ps) (simp_all add: next_of_def)

lemma length_to_uint16 [simp]: "length (to_uint16 xs) = length xs"
  by (simp add: to_uint16_def)

lemma store_attributes_first:
  "priv_attributes g = None \<Longrightarrow> store_attributes g = Return (create_attributes g)"
  by (simp add: store_attributes_def)

lemma store_attributes_resized:
  assumes "priv_attributes g = Some a" and "attributes_for m a"
    and "length (priv_positions g) \<noteq> 6 * m"
  shows "store_attributes g = Return (create_attributes g)"
proof -
  have "count (attr_position a) * 3 = 6 * m"
    using assms(2) by (simp add: attributes_for_def count_def)
  with assms show ?thesis by (simp add: store_attributes_def)
qed

lemma store_attributes_reused:
  assumes "priv_attributes g = Some a" and "attributes_for n a"
    and "length (priv_positions g) = 6 * n" and "length (priv_previous g) = 6 * n"
    and "length (priv_next g) = 6 * n" and "length (priv_side g) = 2 * n"
    and "length (priv_width g) = 2 * n" and "length (priv_uvs g) = 4 * n"
    and "length (priv_indices_array g) = 6 * (n - 1)"
  shows "store_attributes g = Return (g\<lparr>priv_attributes := Some (refreshed g a)\<rparr>)"
proof -
  have c: "count (attr_position a) * 3 = 6 * n"
    using assms(2) by (simp add: attributes_for_def count_def)
  have "refresh_attributes g a = Return (refreshed g a)"
    using assms(2-)
    by (simp add: refresh_attributes_def refresh_def copyArray_def attributes_for_def
        refreshed_def)
  with assms(1,3) c show ?thesis by (simp add: store_attributes_def)
qed

subsection \<open>Lines of one point, and the stored points\<close>

lemma point_eq_Fin: "point_eq (Vector3 (Fin a) (Fin b) (Fin c)) (Vector3 (Fin a) (Fin b) (Fin c))"
  by (simp add: point_eq_def)

lemma setPoints_single:
  assumes "well_formed points" and "point_list points = [p]" and "point_eq p p"
  shows "setPoints points wcb g =
     Throw PointMissing
       ((prepared points wcb g)\<lparr>priv_previous := [], priv_next := [], priv_side := [],
          priv_width := [], priv_indices_array := [], priv_uvs := []\<rparr>)"
proof -
  have "setPoints points wcb g = process (prepared points wcb g)"
    using setPoints_process [OF assms(1)] assms(2) by simp
  moreover have "priv_positions (prepared points wcb g) = positions_of [p]"
    by (simp add: prepared_def assms(2))
  ultimately show ?thesis
    using process_single_throws [OF _ assms(3)] by simp
qed

lemma unflatten_flatten [simp]: "unflatten (flatten ps) = ps"
  by (induction ps) (simp_all add: flatten_def)

lemma store_attributes_points:
  "map_outcome forget_points (store_attributes (g\<lparr>priv_points := x\<rparr>)) =
   map_outcome forget_points (store_attributes g)"
  by (simp add: store_attributes_def create_attributes_def refresh_attributes_def forget_points_def
      Let_def split: option.split outcome.split)

lemma tessellated_points:
  "tessellated ps (g\<lparr>priv_points := x\<rparr>) = (tessellated ps g)\<lparr>priv_points := x\<rparr>"
  by (simp add: tessellated_def)

lemma prepared_points:
  "point_list points = point_list points' \<Longrightarrow>
   prepared points wcb g = (prepared points' wcb g)\<lparr>priv_points := points\<rparr>"
  by (simp add: prepared_def)

lemma not_tessellable:
  assumes "ps \<noteq> []" and "\<not> tessellable ps"
  shows "\<exists>p. ps = [p] \<and> point_eq p p"
proof (cases ps)
  case Nil
  with assms show ?thesis by simp
next
  case (Cons p qs)
  with assms show ?thesis by (cases qs) (auto simp: tessellable_def)
qed

subsection \<open>setPoints on a consistent geometry\<close>

lemma tessellable_nonempty: "tessellable ps \<Longrightarrow> ps \<noteq> []"
  by (simp add: tessellable_def)

lemma tessellable_two: "2 \<le> length ps \<Longrightarrow> tessellable ps"
  by (auto simp: tessellable_def)

lemma setPoints_stored:
  assumes c: "consistent g" and wf: "well_formed points" and t: "tessellable (point_list points)"
  shows "setPoints points wcb g = Return (stored points wcb g)"
proof -
  define ps where "ps = point_list points"
  define tg where "tg = tessellated ps (prepared points wcb g)"
  have ne: "ps \<noteq> []" using t by (simp add: ps_def tessellable_nonempty)
  have sp: "setPoints points wcb g = store_attributes tg"
    using setPoints_closed [OF wf t] by (simp add: tg_def ps_def)
  have at: "priv_attributes tg = priv_attributes g"
    by (simp add: tg_def tessellated_def prepared_def)
  have len: "length (priv_positions tg) = 6 * length ps" "length (priv_previous tg) = 6 * length ps"
    "length (priv_next tg) = 6 * length ps" "length (priv_side tg) = 2 * length ps"
    "length (priv_width tg) = 2 * length ps" "length (priv_uvs tg) = 4 * length ps"
    "length (priv_indices_array tg) = 6 * (length ps - 1)"
    using ne by (simp_all add: tg_def tessellated_def prepared_def ps_def)
  show ?thesis
  proof (cases "priv_attributes g")
    case None
    then show ?thesis
      using sp store_attributes_first [of tg] at
      by (simp add: stored_def Let_def tg_def ps_def)
  next
    case (Some a)
    with c have af: "attributes_for (point_count a) a" by (simp add: consistent_def)
    have ta: "priv_attributes tg = Some a" using at Some by simp
    show ?thesis
    proof (cases "point_count a = length ps")
      case True
      have "store_attributes tg = Return (tg\<lparr>priv_attributes := Some (refreshed tg a)\<rparr>)"
        using af len unfolding True by (intro store_attributes_reused [OF ta]) simp_all
      then show ?thesis
        using sp Some True by (simp add: stored_def Let_def tg_def ps_def)
    next
      case False
      then have "length (priv_positions tg) \<noteq> 6 * point_count a"
        using len(1) by simp
      from store_attributes_resized [OF ta af this] show ?thesis
        using sp Some False by (simp add: stored_def Let_def tg_def ps_def)
    qed
  qed
qed

lemma point_count_create:
  "priv_attributes (create_attributes g) = Some a \<Longrightarrow>
   point_count a = length (priv_positions g) div 6"
  by (auto simp: create_attributes_def point_count_def new_attribute_def Let_def)

lemma attributes_for_create:
  assumes "priv_positions g = positions_of ps" and "priv_previous g = previous_of ps"
    and "priv_next g = next_of ps" and "priv_side g = sides_of (length ps)"
    and "priv_width g = widths_of cb (length ps)" and "priv_uvs g = uvs_of (length ps)"
    and "priv_indices_array g = indices_of (length ps)"
    and "priv_counters g = counters_of (length ps)" and "ps \<noteq> []"
    and "priv_attributes (create_attributes g) = Some a"
  shows "attributes_for (length ps) a"
  using assms
  by (auto simp: create_attributes_def attributes_for_def new_attribute_def Let_def)

lemma consistent_stored:
  assumes c: "consistent g" and t: "tessellable (point_list points)"
  shows "consistent (stored points wcb g)"
proof -
  define ps where "ps = point_list points"
  define tg where "tg = tessellated ps (prepared points wcb g)"
  have ne: "ps \<noteq> []" using t by (simp add: ps_def tessellable_nonempty)
  have fields: "priv_positions tg = positions_of ps" "priv_previous tg = previous_of ps"
    "priv_next tg = next_of ps" "priv_side tg = sides_of (length ps)"
    "priv_width tg = widths_of (widthCallback (prepared points wcb g)) (length ps)"
    "priv_uvs tg = uvs_of (length ps)" "priv_indices_array tg = indices_of (length ps)"
    "priv_counters tg = counters_of (length ps)"
    by (simp_all add: tg_def tessellated_def prepared_def ps_def)
  have created: "consistent (create_attributes tg)"
  proof -
    obtain a where a: "priv_attributes (create_attributes tg) = Some a"
      by (simp add: create_attributes_def Let_def)
    have "point_count a = length ps"
      using point_count_create [OF a] by (simp add: fields)
    moreover have "attributes_for (length ps) a"
      using attributes_for_create [OF fields ne a] .
    ultimately show ?thesis using a by (simp add: consistent_def)
  qed
  show ?thesis
  proof (cases "priv_attributes g")
    case None
    then show ?thesis using created by (simp add: stored_def Let_def tg_def ps_def)
  next
    case (Some a)
    show ?thesis
    proof (cases "point_count a = length ps")
      case True
      from c Some have "attributes_for (length ps) a" by (simp add: consistent_def True)
      then have "attributes_for (length ps) (refreshed tg a)"
        using ne by (simp add: attributes_for_def refreshed_def fields)
      moreover have "point_count (refreshed tg a) = length ps"
        by (simp add: point_count_def refreshed_def fields)
      ultimately show ?thesis
        using Some True by (simp add: stored_def Let_def tg_def ps_def consistent_def)
    next
      case False
      then show ?thesis using created Some by (simp add: stored_def Let_def tg_def ps_def)
    qed
  qed
qed

subsection \<open>The scalars of one point in previous and next\<close>

lemma positions_of_append: "positions_of (ps @ qs) = positions_of ps @ positions_of qs"
  by (simp add: positions_of_def)

lemma point_block_positions_of:
  assumes "j < length ps"
  shows "point_block j (positions_of ps) = dup (ps ! j)"
proof -
  have "ps = take j ps @ ps ! j # drop (Suc j) ps"
    using assms by (rule id_take_nth_drop)
  then have "positions_of ps =
      positions_of (take j ps) @ dup (ps ! j) @ positions_of (drop (Suc j) ps)"
    by (metis positions_of_append positions_of_def concat.simps(2) list.simps(9))
  moreover have "length (positions_of (take j ps)) = 6 * j"
    using assms by simp
  ultimately show ?thesis
    by (simp add: point_block_def)
qed

lemma point_block_append_left:
  "6 * Suc j \<le> length xs \<Longrightarrow> point_block j (xs @ ys) = point_block j xs"
  by (simp add: point_block_def)

lemma point_block_append_right:
  "length xs = 6 * k \<Longrightarrow> point_block (k + j) (xs @ ys) = point_block j ys"
  by (simp add: point_block_def distrib_left)

lemma point_block_dup: "point_block 0 (dup p @ ys) = dup p"
  by (simp add: point_block_def)

lemma previous_of_first:
  "point_block 0 (previous_of ps) =
     dup (if point_eq (ps ! 0) (ps ! (length ps - 1)) then ps ! (length ps - 2) else ps ! 0)"
  unfolding previous_of_def by (rule point_block_dup)

lemma previous_of_later:
  assumes "0 < j" and "j < length ps"
  shows "point_block j (previous_of ps) = dup (ps ! (j - 1))"
proof -
  define p where "p = (if point_eq (ps ! 0) (ps ! (length ps - 1)) then ps ! (length ps - 2) else ps ! 0)"
  have j: "j = 1 + (j - 1)" using assms(1) by simp
  have lt: "j - 1 < length (butlast ps)" using assms by simp
  have "point_block (1 + (j - 1)) (dup p @ positions_of (butlast ps)) =
      point_block (j - 1) (positions_of (butlast ps))"
    by (rule point_block_append_right) simp
  also have "\<dots> = dup (butlast ps ! (j - 1))"
    using lt by (rule point_block_positions_of)
  also have "butlast ps ! (j - 1) = ps ! (j - 1)"
    using lt by (simp add: nth_butlast)
  finally show ?thesis
    using j by (simp add: previous_of_def p_def)
qed

lemma next_of_earlier:
  assumes "Suc j < length ps"
  shows "point_block j (next_of ps) = dup (ps ! Suc j)"
proof -
  have lt: "j < length (tl ps)" using assms by simp
  then have "6 * Suc j \<le> length (positions_of (tl ps))" by simp
  then have "point_block j (next_of ps) = point_block j (positions_of (tl ps))"
    unfolding next_of_def by (rule point_block_append_left)
  also have "\<dots> = dup (tl ps ! j)"
    using lt by (rule point_block_positions_of)
  also have "tl ps ! j = ps ! Suc j"
    using lt by (simp add: nth_tl)
  finally show ?thesis .
qed

lemma next_of_last:
  assumes "ps \<noteq> []"
  shows "point_block (length ps - 1) (next_of ps) =
     dup (if point_eq (ps ! (length ps - 1)) (ps ! 0) then ps ! 1 else ps ! (length ps - 1))"
proof -
  define p where "p = (if point_eq (ps ! (length ps - 1)) (ps ! 0) then ps ! 1 else ps ! (length ps - 1))"
  have "point_block (length (tl ps) + 0) (positions_of (tl ps) @ dup p) = point_block 0 (dup p)"
    by (rule point_block_append_right) simp
  then show ?thesis
    by (simp add: next_of_def p_def point_block_def)
qed

subsection \<open>What a returning setPoints leaves\<close>

lemma stored_attributes:
  assumes "tessellable (point_list points)"
  shows "\<exists>a. priv_attributes (stored points wcb g) = Some a \<and>
           array (attr_position a) = priv_positions (stored points wcb g) \<and>
           array (attr_previous a) = priv_previous (stored points wcb g) \<and>
           array (attr_next a) = priv_next (stored points wcb g) \<and>
           array (attr_side a) = priv_side (stored points wcb g) \<and>
           array (attr_width a) = priv_width (stored points wcb g) \<and>
           array (attr_uv a) = priv_uvs (stored points wcb g) \<and>
           array (attr_index a) = to_uint16 (priv_indices_array (stored points wcb g))"
  by (simp add: stored_def Let_def create_attributes_def new_attribute_def refreshed_def
      split: option.split)

lemma stored_fields:
  "priv_positions (stored points wcb g) = positions_of (point_list points)"
  "priv_previous (stored points wcb g) = previous_of (point_list points)"
  "priv_next (stored points wcb g) = next_of (point_list points)"
  "priv_side (stored points wcb g) = sides_of (length (point_list points))"
  "priv_width (stored points wcb g) =
     widths_of (case wcb of Some f \<Rightarrow> Some f | None \<Rightarrow> widthCallback g) (length (point_list points))"
  "priv_uvs (stored points wcb g) = uvs_of (length (point_list points))"
  "priv_indices_array (stored points wcb g) = indices_of (length (point_list points))"
  "priv_counters (stored points wcb g) = counters_of (length (point_list points))"
  "priv_points (stored points wcb g) = points"
  "widthCallback (stored points wcb g) = (case wcb of Some f \<Rightarrow> Some f | None \<Rightarrow> widthCallback g)"
  "callback_log (stored points wcb g) =
     callback_log g @
     invocations (case wcb of Some f \<Rightarrow> Some f | None \<Rightarrow> widthCallback g) (length (point_list points))"
  by (simp_all add: stored_def Let_def create_attributes_def tessellated_def prepared_def
      split: option.split)

lemma u_at_Fin: "2 \<le> n \<Longrightarrow> u_at n j = Fin (of_nat j / of_nat (n - 1))"
  by (simp add: u_at_def of_index_def of_nat_diff)

lemma uvs_of_Fin:
  assumes "2 \<le> n"
  shows "uvs_of n =
     concat (map (\<lambda>j. [Fin (of_nat j / of_nat (n - 1)), Fin 0,
                         Fin (of_nat j / of_nat (n - 1)), Fin 1]) [0..<n])"
  by (simp add: uvs_of_def u_at_Fin [OF assms])

lemma stored_counters:
  assumes "consistent g" and "tessellable (point_list points)"
  shows "\<exists>a. priv_attributes (stored points wcb g) = Some a \<and>
           array (attr_counters a) = counters_of (length (point_list points))"
proof -
  obtain a where a: "priv_attributes (stored points wcb g) = Some a"
    "array (attr_position a) = priv_positions (stored points wcb g)"
    using stored_attributes [OF assms(2), of wcb g] by blast
  have "attributes_for (point_count a) a"
    using consistent_stored [OF assms, of wcb] a(1) by (simp add: consistent_def)
  moreover have "point_count a = length (point_list points)"
    by (simp add: point_count_def a(2) stored_fields)
  ultimately show ?thesis using a(1) by (simp add: attributes_for_def)
qed

lemma new_geometry_consistent: "consistent new_geometry"
  by (simp add: consistent_def new_geometry_def)

lemma widths_of_None: "widths_of None n = replicate (2 * n) (Fin 1)"
proof -
  have "concat (map (\<lambda>k. [Fin 1, Fin 1]) xs) = replicate (2 * length xs) (Fin 1)" for xs :: "nat list"
    by (induction xs) simp_all
  from this [of "[0..<n]"] show ?thesis
    by (simp add: widths_of_def width_at_def)
qed

lemma widths_of_Some:
  "2 \<le> n \<Longrightarrow>
   widths_of (Some f) n =
     concat (map (\<lambda>j. [f (Fin (of_nat j / of_nat (n - 1))), f (Fin (of_nat j / of_nat (n - 1)))]) [0..<n])"
  by (simp add: widths_of_def width_at_def u_at_Fin)

lemma invocations_Some:
  "2 \<le> n \<Longrightarrow> invocations (Some f) n = map (\<lambda>j. Fin (of_nat j / of_nat (n - 1))) [0..<n]"
  by (simp add: invocations_def u_at_Fin)

lemma indices_of_nth:
  assumes "Suc j < n" and "c < 6"
  shows "indices_of n ! (6 * j + c) = triangles j ! c"
proof -
  have "concat (map triangles [0..<n - 1]) ! (j * 6 + c) = map triangles [0..<n - 1] ! j ! c"
    using assms by (intro nth_concat_uniform) auto
  then show ?thesis
    using assms by (simp add: indices_of_def mult.commute)
qed

lemma triangles_bound: "Suc j < n \<Longrightarrow> \<forall>i \<in> set (triangles j). i < 2 * n"
  by (auto simp: triangles_def Let_def)

lemma indices_of_bound: "\<forall>i \<in> set (indices_of n). i < 2 * n"
  by (auto simp: indices_of_def dest: triangles_bound [THEN bspec, rotated])

lemma unat_to_uint16: "map unat (to_uint16 xs) = map (\<lambda>i. i mod 65536) xs"
  by (simp add: to_uint16_def unat_of_nat)

subsection \<open>The calls that return\<close>

lemma number_loop_ill_formed:
  "length xs mod 3 \<noteq> 0 \<Longrightarrow> 3 * j \<le> length xs \<Longrightarrow> \<not> returns (number_loop xs (3 * j) g)"
proof (induction "length xs - 3 * j" arbitrary: j g rule: less_induct)
  case less
  have lt: "3 * j < length xs"
  proof (rule ccontr)
    assume "\<not> 3 * j < length xs"
    with less.prems(2) have "length xs = 3 * j" by simp
    with less.prems(1) show False by simp
  qed
  show ?case
  proof (cases "3 * j + 2 < length xs")
    case True
    then have le: "3 * Suc j \<le> length xs" by simp
    have d: "length xs - 3 * Suc j < length xs - 3 * j" using lt by simp
    have s: "3 * j + 3 = 3 * Suc j" by simp
    have e: "int (3 * j) + 0 = int (3 * j)" "int (3 * j) + 1 = int (3 * j + 1)"
      "int (3 * j) + 2 = int (3 * j + 2)" by simp_all
    have a: "js_at xs (int (3 * j) + 0) = Some (xs ! (3 * j))"
      "js_at xs (int (3 * j) + 1) = Some (xs ! (3 * j + 1))"
      "js_at xs (int (3 * j) + 2) = Some (xs ! (3 * j + 2))"
      unfolding e using True by (simp_all only: js_at_int, simp_all)
    show ?thesis
      using less.hyps [OF d less.prems(1) le]
      by (subst number_loop.simps)
         (simp only: lt if_True a Let_def s prod.case option.case not_False_eq_True)
  next
    case False
    then have "js_at xs (int (3 * j) + 2) = None"
      by (simp add: js_at_def)
    then show ?thesis
      using lt by (subst number_loop.simps) (simp add: Let_def split: option.split)
  qed
qed




lemma sides_of_replicate: "sides_of n = concat (replicate n [Fin 1, Fin (- 1)])"
  by (simp add: sides_of_def map_replicate_const)

text \<open>
  The shape of the output on a line of \<open>N\<close> points, two or more: \<open>2 N\<close> vertices in every
  vertex attribute, with 3, 3, 3, 1, 1, 1 and 2 components, \<open>6 (N - 1)\<close> indices, the
  triangles \<open>(n, n + 1, n + 2)\<close> and \<open>(n + 2, n + 1, n + 3)\<close> with \<open>n = 2 j\<close> for segment \<open>j\<close>,
  and the sides \<open>1, -1\<close> for each point.
\<close>

lemma tessellation_shape:
  assumes "consistent g" and "well_formed points" and "2 \<le> length (point_list points)"
  shows "\<exists>g' a. setPoints points wcb g = Return g' \<and> priv_attributes g' = Some a \<and>
    (let n = length (point_list points)
     in count (attr_position a) = 2 * n \<and> itemSize (attr_position a) = 3 \<and>
        count (attr_previous a) = 2 * n \<and> itemSize (attr_previous a) = 3 \<and>
        count (attr_next a) = 2 * n \<and> itemSize (attr_next a) = 3 \<and>
        count (attr_side a) = 2 * n \<and> itemSize (attr_side a) = 1 \<and>
        count (attr_width a) = 2 * n \<and> itemSize (attr_width a) = 1 \<and>
        count (attr_counters a) = 2 * n \<and> itemSize (attr_counters a) = 1 \<and>
        count (attr_uv a) = 2 * n \<and> itemSize (attr_uv a) = 2 \<and>
        length (array (attr_index a)) = 6 * (n - 1) \<and>
        priv_indices_array g' =
          concat (map (\<lambda>j. [2 * j, 2 * j + 1, 2 * j + 2, 2 * j + 2, 2 * j + 1, 2 * j + 3])
            [0..<n - 1]) \<and>
        array (attr_side a) = concat (replicate n [Fin 1, Fin (- 1)]))"
proof -
  define n where "n = length (point_list points)"
  have t: "tessellable (point_list points)" using assms(3) by (rule tessellable_two)
  obtain a where a: "priv_attributes (stored points wcb g) = Some a"
    "array (attr_position a) = positions_of (point_list points)"
    "array (attr_side a) = sides_of n"
    using stored_attributes [OF t, of wcb g] by (auto simp: stored_fields n_def)
  have "attributes_for (point_count a) a"
    using consistent_stored [OF assms(1) t, of wcb] a(1) by (simp add: consistent_def)
  moreover have "point_count a = n"
    by (simp add: point_count_def a(2) n_def)
  ultimately have af: "attributes_for n a" by simp
  have tri: "triangles = (\<lambda>j. [2 * j, 2 * j + 1, 2 * j + 2, 2 * j + 2, 2 * j + 1, 2 * j + 3])"
    by (rule ext) (simp add: triangles_def Let_def)
  show ?thesis
    using setPoints_stored [OF assms(1,2) t, of wcb] a(1,3) af
    by (simp add: n_def [symmetric] Let_def attributes_for_def count_def stored_fields
        sides_of_replicate indices_of_def tri)
qed

subsection \<open>advance\<close>

lemma typed_set_in: "i < length xs \<Longrightarrow> typed_set xs (int i) v = xs[i := v]"
  by (simp add: typed_set_def)

lemma memcpy_loop_done:
  "\<not> int i + b < e \<Longrightarrow> memcpy_loop same src b dst off e i = Return dst"
  by (subst memcpy_loop.simps) simp

lemma memcpy_loop_copy:
  "i \<le> len \<Longrightarrow> b + len \<le> length src \<Longrightarrow> len \<le> length dst \<Longrightarrow>
   memcpy_loop False src (int b) dst 0 (int b + int len) i =
     Return (take i dst @ take (len - i) (drop (b + i) src) @ drop len dst)"
proof (induction "len - i" arbitrary: i dst)
  case 0
  then have "i = len" by simp
  then show ?case by (simp add: memcpy_loop_done)
next
  case (Suc d)
  then have lt: "i < len" by simp
  have d: "d = len - Suc i" using Suc.hyps(2) by simp
  have rd: "js_at src (int i + int b) = Some (src ! (b + i))"
  proof -
    have "int i + int b = int (b + i)" by simp
    moreover have "b + i < length src" using lt Suc.prems(2) by simp
    ultimately show ?thesis by (simp only: js_at_int if_True)
  qed
  have wr: "typed_set dst (int i + 0) v = dst[i := v]" for v
    using lt Suc.prems(3) by (simp add: typed_set_in)
  have tk: "take (len - i) (drop (b + i) src) =
      src ! (b + i) # take (len - Suc i) (drop (b + Suc i) src)"
  proof -
    have "b + i < length src" using lt Suc.prems(2) by simp
    then have "drop (b + i) src = src ! (b + i) # drop (Suc (b + i)) src"
      by (simp add: Cons_nth_drop_Suc)
    moreover have "len - i = Suc (len - Suc i)" using lt by simp
    ultimately show ?thesis by simp
  qed
  have il: "i < length dst" using lt Suc.prems(3) by simp
  have ih: "memcpy_loop False src (int b) (dst[i := src ! (b + i)]) 0 (int b + int len) (Suc i) =
      Return (take (Suc i) (dst[i := src ! (b + i)]) @
        take (len - Suc i) (drop (b + Suc i) src) @ drop len (dst[i := src ! (b + i)]))"
    using Suc.hyps(1) [OF d, of "dst[i := src ! (b + i)]"] lt Suc.prems(2,3) by simp
  have t1: "take (Suc i) (dst[i := src ! (b + i)]) = take i dst @ [src ! (b + i)]"
    using il by (simp add: take_Suc_conv_app_nth)
  have t2: "drop len (dst[i := src ! (b + i)]) = drop len dst"
    using lt by simp
  have c: "int i + int b < int b + int len" using lt by simp
  show ?case
    by (subst memcpy_loop.simps) (simp only: c if_True if_False rd option.case wr, simp add: ih t1 t2 tk)
qed

lemma memcpy_loop_shift:
  "i \<le> len \<Longrightarrow> b + len = length xs \<Longrightarrow>
   memcpy_loop True src (int b) (take i (drop b xs) @ drop i xs) 0 (int b + int len) i =
     Return (drop b xs @ drop len xs)"
proof (induction "len - i" arbitrary: i)
  case 0
  then have "i = len" by simp
  then show ?case using "0.prems"(2) by (simp add: memcpy_loop_done)
next
  case (Suc d)
  then have lt: "i < len" by simp
  have d: "d = len - Suc i" using Suc.hyps(2) by simp
  define cur where "cur = take i (drop b xs) @ drop i xs"
  have lt1: "length (take i (drop b xs)) = i"
    using lt Suc.prems(2) by simp
  have lc: "length cur = length xs"
    using lt Suc.prems(2) by (simp add: cur_def)
  have nth: "cur ! (b + i) = xs ! (b + i)"
    using lt Suc.prems(2) by (simp add: cur_def nth_append add.commute)
  have rd: "js_at cur (int i + int b) = Some (xs ! (b + i))"
  proof -
    have "int i + int b = int (b + i)" by simp
    moreover have "b + i < length cur" using lt Suc.prems(2) lc by simp
    ultimately show ?thesis using nth by (simp only: js_at_int if_True)
  qed
  have il: "i < length cur" using lt Suc.prems(2) lc by simp
  have wr: "typed_set cur (int i + 0) v = cur[i := v]" for v
    using il by (simp add: typed_set_in)
  have dr: "drop i xs = xs ! i # drop (Suc i) xs"
    using lt Suc.prems(2) by (simp add: Cons_nth_drop_Suc)
  have upd: "cur[i := xs ! (b + i)] = take (Suc i) (drop b xs) @ drop (Suc i) xs"
  proof -
    have "cur[i := xs ! (b + i)] = take i (drop b xs) @ (drop i xs)[0 := xs ! (b + i)]"
      unfolding cur_def using lt1 by (simp add: list_update_append)
    also have "\<dots> = take i (drop b xs) @ xs ! (b + i) # drop (Suc i) xs"
      by (subst dr) simp
    also have "take (Suc i) (drop b xs) = take i (drop b xs) @ [xs ! (b + i)]"
      using lt Suc.prems(2) by (simp add: take_Suc_conv_app_nth)
    then have "take i (drop b xs) @ xs ! (b + i) # drop (Suc i) xs =
        take (Suc i) (drop b xs) @ drop (Suc i) xs" by simp
    finally show ?thesis .
  qed
  have c: "int i + int b < int b + int len" using lt by simp
  have ih: "memcpy_loop True src (int b) (take (Suc i) (drop b xs) @ drop (Suc i) xs) 0
      (int b + int len) (Suc i) = Return (drop b xs @ drop len xs)"
    using Suc.hyps(1) [OF d] lt Suc.prems(2) by simp
  show ?case
    unfolding cur_def [symmetric]
    by (subst memcpy_loop.simps) (simp only: c if_True rd option.case wr, simp add: upd ih)
qed

lemma typed_set_append:
  "k < length ws \<Longrightarrow> typed_set (ys @ ws) (int (length ys) + int k) v = ys @ ws[k := v]"
  by (simp add: typed_set_def list_update_append nat_add_distrib)

lemma store_last_append:
  assumes "length zs = 6"
  shows "store_last (int (length ys + 6)) p (ys @ zs) = ys @ dup p"
proof -
  obtain a b c d e f where zs: "zs = [a, b, c, d, e, f]"
    using assms by (auto simp: length_Suc_conv eval_nat_numeral)
  have i: "int (length ys + 6) - 6 = int (length ys) + int 0"
    "int (length ys + 6) - 5 = int (length ys) + int 1"
    "int (length ys + 6) - 4 = int (length ys) + int 2"
    "int (length ys + 6) - 3 = int (length ys) + int 3"
    "int (length ys + 6) - 2 = int (length ys) + int 4"
    "int (length ys + 6) - 1 = int (length ys) + int 5"
    by simp_all
  have s0: "typed_set (ys @ [a, b, c, d, e, f]) (int (length ys) + int 0) (vx p) =
      ys @ [vx p, b, c, d, e, f]"
    using typed_set_append [of 0 "[a, b, c, d, e, f]" ys "vx p"] by simp
  have s1: "typed_set (ys @ [vx p, b, c, d, e, f]) (int (length ys) + int 1) (vy p) =
      ys @ [vx p, vy p, c, d, e, f]"
    using typed_set_append [of 1 "[vx p, b, c, d, e, f]" ys "vy p"] by simp
  have s2: "typed_set (ys @ [vx p, vy p, c, d, e, f]) (int (length ys) + int 2) (vz p) =
      ys @ [vx p, vy p, vz p, d, e, f]"
    using typed_set_append [of 2 "[vx p, vy p, c, d, e, f]" ys "vz p"]
    by (simp add: numeral_2_eq_2)
  have s3: "typed_set (ys @ [vx p, vy p, vz p, d, e, f]) (int (length ys) + int 3) (vx p) =
      ys @ [vx p, vy p, vz p, vx p, e, f]"
    using typed_set_append [of 3 "[vx p, vy p, vz p, d, e, f]" ys "vx p"]
    by (simp add: numeral_3_eq_3)
  have s4: "typed_set (ys @ [vx p, vy p, vz p, vx p, e, f]) (int (length ys) + int 4) (vy p) =
      ys @ [vx p, vy p, vz p, vx p, vy p, f]"
    using typed_set_append [of 4 "[vx p, vy p, vz p, vx p, e, f]" ys "vy p"]
    by (simp add: eval_nat_numeral)
  have s5: "typed_set (ys @ [vx p, vy p, vz p, vx p, vy p, f]) (int (length ys) + int 5) (vz p) =
      ys @ [vx p, vy p, vz p, vx p, vy p, vz p]"
    using typed_set_append [of 5 "[vx p, vy p, vz p, vx p, vy p, f]" ys "vz p"]
    by (simp add: eval_nat_numeral)
  show ?thesis
    unfolding store_last_def Let_def zs
    by (simp only: i s0 s1 s2 s3 s4 s5 dup_def)
qed

lemma store_last_end:
  assumes "6 \<le> length xs"
  shows "store_last (int (length xs)) p xs = take (length xs - 6) xs @ dup p"
proof -
  define ys where "ys = take (length xs - 6) xs"
  define zs where "zs = drop (length xs - 6) xs"
  have xs: "xs = ys @ zs" by (simp add: ys_def zs_def)
  have lz: "length zs = 6" using assms by (simp add: zs_def)
  have ly: "length xs = length ys + 6" using assms by (simp add: ys_def)
  have "store_last (int (length xs)) p xs = ys @ dup p"
    using store_last_append [OF lz, of ys p] unfolding ly [symmetric] xs [symmetric] .
  then show ?thesis by (simp only: ys_def)
qed

lemma memcpy_copy:
  assumes "b + len \<le> length src" and "len \<le> length dst"
  shows "memcpy False src (int b) dst 0 (int len) = Return (take len (drop b src) @ drop len dst)"
  using memcpy_loop_copy [of 0 len b src dst] assms by (simp add: memcpy_def)

lemma memcpy_shift:
  assumes "b \<le> length xs"
  shows "memcpy True xs (int b) xs 0 (int (length xs) - int b) = Return (drop b xs @ drop (length xs - b) xs)"
proof -
  have e: "int (length xs) - int b = int (length xs - b)" using assms by simp
  have "memcpy_loop True xs (int b) (take 0 (drop b xs) @ drop 0 xs) 0
      (int b + int (length xs - b)) 0 = Return (drop b xs @ drop (length xs - b) xs)"
    using assms by (intro memcpy_loop_shift) simp_all
  then show ?thesis
    unfolding e by (simp add: memcpy_def)
qed

lemma advance_arrays_closed:
  assumes "attributes_for n a"
  shows "advance_arrays p a = Return (advanced p a)"
proof -
  define pos where "pos = array (attr_position a)"
  define l where "l = length pos"
  have l: "l = 6 * n" "0 < n" "length (array (attr_previous a)) = l"
    "length (array (attr_next a)) = l"
    using assms by (simp_all add: attributes_for_def l_def pos_def)
  have l6: "6 \<le> l" using l by simp
  have six: "itemSize_const = int 6" by (simp add: itemSize_const_def)
  have m1: "memcpy False pos 0 (array (attr_previous a)) 0 (int l) = Return pos"
    using memcpy_copy [of 0 l pos "array (attr_previous a)"] l by (simp add: l_def)
  have m2: "memcpy True pos (int 6) pos 0 (int l - int 6) = Return (drop 6 pos @ drop (l - 6) pos)"
    using memcpy_shift [of 6 pos] l6 by (simp add: l_def)
  define shifted where "shifted = drop 6 pos @ drop (l - 6) pos"
  have ls: "length shifted = l" using l6 by (simp add: shifted_def l_def)
  have "store_last (int (length shifted)) p shifted = take (length shifted - 6) shifted @ dup p"
    by (rule store_last_end) (simp add: ls l6)
  then have st: "store_last (int l) p shifted = drop 6 pos @ dup p"
    unfolding ls using l6 by (simp add: shifted_def l_def)
  define pos' where "pos' = drop 6 pos @ dup p"
  have lp: "length pos' = l" using l6 by (simp add: pos'_def l_def)
  have il: "int l - int 6 = int (l - 6)" using l6 by simp
  have m3: "memcpy False pos' (int 6) (array (attr_next a)) 0 (int l - int 6) =
      Return (drop 6 pos' @ drop (l - 6) (array (attr_next a)))"
    unfolding il using memcpy_copy [of 6 "l - 6" pos' "array (attr_next a)"] l6 lp l(4)
    by simp
  define nx where "nx = drop 6 pos' @ drop (l - 6) (array (attr_next a))"
  have ln: "length nx = l" using l6 lp l(4) by (simp add: nx_def)
  have "store_last (int (length nx)) p nx = take (length nx - 6) nx @ dup p"
    by (rule store_last_end) (simp add: ln l6)
  then have sn: "store_last (int l) p nx = drop 6 pos' @ dup p"
    unfolding ln using l6 lp by (simp add: nx_def)
  have "advance_arrays p a =
      Return (mark_moved (with_next (drop 6 pos' @ dup p) (with_position pos' (with_previous pos a))))"
    unfolding advance_arrays_def Let_def pos_def [symmetric] l_def [symmetric] six
    by (simp only: m1 m2 outcome.case shifted_def [symmetric] st pos'_def [symmetric] m3
        nx_def [symmetric] sn)
  also have "mark_moved (with_next (drop 6 pos' @ dup p) (with_position pos' (with_previous pos a))) =
      advanced p a"
    by (simp add: mark_moved_def with_next_def with_position_def with_previous_def advanced_def
        pos'_def pos_def)
  finally show ?thesis .
qed

lemma attributes_for_advanced:
  "attributes_for n a \<Longrightarrow> attributes_for n (advanced p a)"
  by (auto simp: attributes_for_def advanced_def)

lemma point_count_advanced:
  "attributes_for n a \<Longrightarrow> point_count (advanced p a) = point_count a"
  by (auto simp: attributes_for_def advanced_def point_count_def)

lemma advance_closed:
  assumes "consistent g" and "priv_attributes g = Some a"
  shows "advance p g = Return (g\<lparr>priv_attributes := Some (advanced p a)\<rparr>)"
proof -
  have "attributes_for (point_count a) a" using assms by (simp add: consistent_def)
  from advance_arrays_closed [OF this, of p] assms(2) show ?thesis
    by (simp add: advance_def)
qed

lemma advance_uninitialised:
  "priv_attributes g = None \<Longrightarrow> advance p g = Throw CallSetPointsFirst g"
  by (simp add: advance_def)

lemma consistent_advance:
  assumes "consistent g"
  shows "consistent (final (advance p g))"
proof (cases "priv_attributes g")
  case None
  then show ?thesis using assms by (simp add: advance_uninitialised)
next
  case (Some a)
  have af: "attributes_for (point_count a) a" using assms Some by (simp add: consistent_def)
  show ?thesis
    using advance_closed [OF assms Some, of p] attributes_for_advanced [OF af, of p]
      point_count_advanced [OF af, of p]
    by (simp add: consistent_def)
qed

subsection \<open>Histories of calls\<close>

lemma number_loop_attributes:
  "priv_attributes (final (number_loop xs j g)) = priv_attributes g"
proof (induction "length xs - j" arbitrary: j g rule: less_induct)
  case less
  show ?case
  proof (cases "j < length xs")
    case False
    then show ?thesis by (subst number_loop.simps) simp
  next
    case True
    then have d: "length xs - (j + 3) < length xs - j" by simp
    have ih: "priv_attributes (final (number_loop xs (j + 3) g')) = priv_attributes g'" for g'
      using less.hyps [OF d] .
    show ?thesis
      using True
      by (subst number_loop.simps) (simp add: Let_def ih split: option.split)
  qed
qed

lemma well_formed_empty:
  assumes "well_formed points" and "point_list points = []"
  shows "points_length points = 0"
proof (cases points)
  case (NumberArray xs)
  with assms have "length xs mod 3 = 0" "unflatten xs = []" by simp_all
  then have "xs = []" using length_unflatten [of xs] by simp
  then show ?thesis using NumberArray by simp
qed (use assms in simp_all)

lemma setPoints_ill_formed:
  assumes "\<not> well_formed points"
  shows "\<not> returns (setPoints points wcb g)"
    and "priv_attributes (final (setPoints points wcb g)) = priv_attributes g"
proof -
  show "\<not> returns (setPoints points wcb g)"
  proof (cases points)
    case (NumberArray xs)
    with assms have m: "length xs mod 3 \<noteq> 0" by simp
    then have ne: "xs \<noteq> []" by auto
    have "\<not> returns (number_loop xs (3 * 0) g')" for g'
      using m by (rule number_loop_ill_formed) simp
    then have nr: "\<not> returns (number_loop xs 0 g')" for g' by simp
    have "\<not> returns (and_then (number_loop xs 0 g') process)" for g'
      using nr [of g'] by (cases "number_loop xs 0 g'") simp_all
    with NumberArray ne show ?thesis
      by (simp add: setPoints_def fill_def Let_def)
  qed (use assms in \<open>simp_all add: setPoints_def\<close>)
  show "priv_attributes (final (setPoints points wcb g)) = priv_attributes g"
  proof (cases points)
    case (NumberArray xs)
    with assms have m: "length xs mod 3 \<noteq> 0" by simp
    then have ne: "xs \<noteq> []" by auto
    have "\<not> returns (number_loop xs (3 * 0) g')" for g'
      using m by (rule number_loop_ill_formed) simp
    then have nr: "\<not> returns (number_loop xs 0 g')" for g' by simp
    have "priv_attributes (final (and_then (number_loop xs 0 g') process)) = priv_attributes g'" for g'
      using nr [of g'] number_loop_attributes [of xs 0 g']
      by (cases "number_loop xs 0 g'") simp_all
    with NumberArray ne show ?thesis
      by (cases wcb) (simp_all add: setPoints_def fill_def Let_def)
  qed (use assms in \<open>simp_all add: setPoints_def\<close>)
qed

lemma setPoints_final:
  assumes "consistent g"
  shows "consistent (final (setPoints points wcb g)) \<and>
    (priv_attributes (final (setPoints points wcb g)) = None \<longleftrightarrow>
       priv_attributes g = None \<and> \<not> (returns (setPoints points wcb g) \<and> points_length points \<noteq> 0))"
proof (cases "well_formed points")
  case False
  with setPoints_ill_formed [OF False, of wcb g] assms show ?thesis
    by (simp add: consistent_def)
next
  case wf: True
  show ?thesis
  proof (cases "point_list points = []")
    case True
    then have "points_length points = 0" using wf by (rule well_formed_empty [rotated])
    then show ?thesis using assms by (simp add: setPoints_def)
  next
    case ne: False
    then have pl: "points_length points \<noteq> 0"
      by (cases points) auto
    show ?thesis
    proof (cases "tessellable (point_list points)")
      case True
      obtain a where "priv_attributes (stored points wcb g) = Some a"
        using stored_attributes [OF True, of wcb g] by blast
      then show ?thesis
        using setPoints_stored [OF assms wf True, of wcb] consistent_stored [OF assms True, of wcb] pl
        by simp
    next
      case False
      then obtain p where "point_list points = [p]" "point_eq p p"
        using not_tessellable [OF ne] by blast
      from setPoints_single [OF wf this, of wcb g] assms show ?thesis
        by (simp add: consistent_def prepared_def)
    qed
  qed
qed

lemma perform_final:
  assumes "consistent g"
  shows "consistent (final (perform c g)) \<and>
    (priv_attributes (final (perform c g)) = None \<longleftrightarrow>
       priv_attributes g = None \<and> \<not> tessellates c g)"
proof (cases c)
  case (SetPoints points wcb)
  then show ?thesis using setPoints_final [OF assms, of points wcb] by simp
next
  case (Advance p)
  show ?thesis
  proof (cases "priv_attributes g")
    case None
    then show ?thesis using Advance assms by (simp add: advance_uninitialised)
  next
    case (Some a)
    then show ?thesis
      using Advance consistent_advance [OF assms, of p] advance_closed [OF assms Some, of p]
      by simp
  qed
qed

lemma after_final:
  "consistent g \<Longrightarrow>
   consistent (after cs g) \<and>
   (priv_attributes (after cs g) = None \<longleftrightarrow> priv_attributes g = None \<and> \<not> initialised cs g)"
proof (induction cs arbitrary: g)
  case Nil
  then show ?case by simp
next
  case (Cons c cs)
  from perform_final [OF Cons.prems, of c]
  have c: "consistent (final (perform c g))"
    and n: "priv_attributes (final (perform c g)) = None \<longleftrightarrow>
       priv_attributes g = None \<and> \<not> tessellates c g" by simp_all
  from Cons.IH [OF c] n show ?case by auto
qed

subsection \<open>The scanning loop of the picker\<close>


lemma threshold_of_set [simp]:
  "threshold_of (st\<lparr>line_threshold := Some (threshold_of st)\<rparr>) = threshold_of st"
  by (simp add: threshold_of_def)








subsection \<open>The width callback, and the arrays a call fills\<close>

text \<open>
  On a line of \<open>N\<close> points, two or more, on a consistent geometry. With no width callback
  in force every width emitted is 1 and nothing is invoked. With a callback \<open>f\<close> in force
  (the one passed, else the one kept from an earlier call), \<open>f\<close> is invoked once for each
  point, in order, on \<open>j / (N - 1)\<close>, and \<open>f (j / (N - 1))\<close> is the width of both rail
  vertices of point \<open>j\<close>.
\<close>

lemma width_callback_use:
  assumes "consistent g" and "well_formed points" and "2 \<le> length (point_list points)"
  shows "\<exists>g' a. setPoints points wcb g = Return g' \<and> priv_attributes g' = Some a \<and>
    (let n = length (point_list points);
         arg = (\<lambda>j. Fin (of_nat j / of_nat (n - 1)))
     in case (case wcb of Some f \<Rightarrow> Some f | None \<Rightarrow> widthCallback g) of
          None \<Rightarrow>
            array (attr_width a) = replicate (2 * n) (Fin 1) \<and>
            callback_log g' = callback_log g
        | Some f \<Rightarrow>
            array (attr_width a) = concat (map (\<lambda>j. [f (arg j), f (arg j)]) [0..<n]) \<and>
            callback_log g' = callback_log g @ map arg [0..<n])"
proof -
  define n where "n = length (point_list points)"
  define cb where "cb = (case wcb of Some f \<Rightarrow> Some f | None \<Rightarrow> widthCallback g)"
  have n2: "2 \<le> n" using assms(3) by (simp add: n_def)
  have t: "tessellable (point_list points)" using assms(3) by (rule tessellable_two)
  obtain a where a: "priv_attributes (stored points wcb g) = Some a"
    "array (attr_width a) = widths_of cb n"
    using stored_attributes [OF t, of wcb g] by (auto simp: stored_fields n_def cb_def)
  have log: "callback_log (stored points wcb g) = callback_log g @ invocations cb n"
    by (simp add: stored_fields n_def cb_def)
  show ?thesis
  proof (cases cb)
    case None
    then show ?thesis
      using setPoints_stored [OF assms(1,2) t, of wcb] a log
      by (simp add: n_def [symmetric] cb_def [symmetric] Let_def widths_of_None invocations_def)
  next
    case (Some f)
    then show ?thesis
      using setPoints_stored [OF assms(1,2) t, of wcb] a log
      by (simp add: n_def [symmetric] cb_def [symmetric] Let_def widths_of_Some [OF n2]
          invocations_Some [OF n2])
  qed
qed

lemma width_callback_use_example:
  "consistent new_geometry \<and>
   well_formed (Vector3Array [Vector3 (Fin 0) (Fin 0) (Fin 0), Vector3 (Fin 1) (Fin 0) (Fin 0),
      Vector3 (Fin 2) (Fin 0) (Fin 0)]) \<and>
   2 \<le> length (point_list (Vector3Array [Vector3 (Fin 0) (Fin 0) (Fin 0),
      Vector3 (Fin 1) (Fin 0) (Fin 0), Vector3 (Fin 2) (Fin 0) (Fin 0)])) \<and>
   (\<exists>g' a. setPoints (Vector3Array [Vector3 (Fin 0) (Fin 0) (Fin 0),
               Vector3 (Fin 1) (Fin 0) (Fin 0), Vector3 (Fin 2) (Fin 0) (Fin 0)])
             (Some (\<lambda>p. num_add p (Fin 2))) new_geometry = Return g' \<and>
           priv_attributes g' = Some a \<and>
           array (attr_width a) = [Fin 2, Fin 2, Fin (5 / 2), Fin (5 / 2), Fin 3, Fin 3] \<and>
           callback_log g' = [Fin 0, Fin (1 / 2), Fin 1])"
proof -
  let ?P = "Vector3Array [Vector3 (Fin 0) (Fin 0) (Fin 0), Vector3 (Fin 1) (Fin 0) (Fin 0),
      Vector3 (Fin 2) (Fin 0) (Fin 0)]"
  have h1: "consistent new_geometry" by (rule new_geometry_consistent)
  have h2: "well_formed ?P" by simp
  have h3: "2 \<le> length (point_list ?P)" by simp
  have up: "[0..<3] = [0, 1, 2]" by (simp add: upt_rec)
  from width_callback_use [OF h1 h2 h3, of "Some (\<lambda>p. num_add p (Fin 2))"] h1 h2 h3
  show ?thesis
    by (auto simp: Let_def up new_geometry_def)
qed

text \<open>
  Storing the attributes leaves the private position and counter arrays alone, also when
  a refresh throws; so whenever \<open>setPoints\<close> gets as far as \<open>#process\<close> the two arrays
  hold what its own loop pushed.
\<close>

lemma store_attributes_private:
  "priv_positions (final (store_attributes g)) = priv_positions g"
  "priv_counters (final (store_attributes g)) = priv_counters g"
  by (simp_all add: store_attributes_def create_attributes_def Let_def
      split: option.split outcome.split)

lemma setPoints_filled:
  assumes "well_formed points" and "point_list points \<noteq> []"
  shows "priv_positions (final (setPoints points wcb g)) = positions_of (point_list points)"
    and "priv_counters (final (setPoints points wcb g)) = counters_of (length (point_list points))"
proof -
  have "priv_positions (final (setPoints points wcb g)) = positions_of (point_list points) \<and>
        priv_counters (final (setPoints points wcb g)) = counters_of (length (point_list points))"
  proof (cases "tessellable (point_list points)")
    case True
    show ?thesis
      using setPoints_closed [OF assms(1) True, of wcb g]
      by (simp add: store_attributes_private tessellated_def prepared_def)
  next
    case False
    obtain p where p: "point_list points = [p]" "point_eq p p"
      using not_tessellable [OF assms(2) False] by blast
    show ?thesis
      using setPoints_single [OF assms(1) p, of wcb g]
      by (simp add: prepared_def)
  qed
  then show "priv_positions (final (setPoints points wcb g)) = positions_of (point_list points)"
    and "priv_counters (final (setPoints points wcb g)) = counters_of (length (point_list points))"
    by simp_all
qed

lemma setPoints_attributes:
  assumes c: "consistent g" and wf: "well_formed points" and n: "2 \<le> length (point_list points)"
  shows "\<exists>a. priv_attributes (stored points wcb g) = Some a \<and>
    array (attr_position a) = positions_of (point_list points) \<and>
    array (attr_counters a) = counters_of (length (point_list points)) \<and>
    array (attr_previous a) = previous_of (point_list points) \<and>
    array (attr_next a) = next_of (point_list points) \<and>
    array (attr_side a) = sides_of (length (point_list points)) \<and>
    array (attr_width a) =
      widths_of (case wcb of Some f \<Rightarrow> Some f | None \<Rightarrow> widthCallback g)
        (length (point_list points)) \<and>
    array (attr_uv a) = uvs_of (length (point_list points)) \<and>
    array (attr_index a) = to_uint16 (indices_of (length (point_list points)))"
proof -
  have t: "tessellable (point_list points)" using n by (rule tessellable_two)
  from stored_attributes [OF t, of wcb g] stored_counters [OF c t, of wcb]
  show ?thesis by (auto simp: stored_fields)
qed

section \<open>The claims\<close>

text \<open>
  C1, at the one-point line \<open>[0, 0, 0]\<close> on a new geometry. The claim promises 2 vertices
  for every line of at least one point. \<open>#pointsAreEqual(0, pointCount - 1)\<close> compares the
  only point with itself, so \<open>#clonePoint(pointCount - 2)\<close> reads index \<open>-6\<close> of
  \<open>#positions\<close> and throws \<open>point missing\<close>: \<open>setPoints\<close> throws, no attribute is
  created and no vertex is emitted. For two points and more the claim holds: lemma
  \<open>tessellation_shape\<close>.
\<close>

theorem one_point_line_emits_nothing:
  "setPoints (NumberArray [Fin 0, Fin 0, Fin 0]) None new_geometry =
     Throw PointMissing
       (new_geometry\<lparr>priv_points := NumberArray [Fin 0, Fin 0, Fin 0],
          priv_positions := [Fin 0, Fin 0, Fin 0, Fin 0, Fin 0, Fin 0],
          priv_counters := [Fin 0, Fin 0]\<rparr>)"
  using setPoints_single [of "NumberArray [Fin 0, Fin 0, Fin 0]"
      "Vector3 (Fin 0) (Fin 0) (Fin 0)" None new_geometry]
  by (simp add: point_eq_Fin prepared_def positions_of_def dup_def counters_of_def counter_at_def
      new_geometry_def)

text \<open>
  C2: on a line of two points or more \<open>setPoints\<close> returns, and in the attributes it
  leaves the six scalars of a point (its coordinates, once for each rail) are: in
  \<open>previous\<close>, for point 0, the point before the last when the first and the last point
  are strictly equal (\<open>===\<close> on each coordinate), else point 0 itself; in \<open>next\<close>, for the
  last point, point 1 when the line is closed in that sense, else the last point itself;
  and for every point \<open>j\<close> strictly between, point \<open>j - 1\<close> in \<open>previous\<close> and point
  \<open>j + 1\<close> in \<open>next\<close>.
\<close>

theorem adjacency:
  assumes "consistent g" and "well_formed points" and "2 \<le> length (point_list points)"
  shows "\<exists>g' a. setPoints points wcb g = Return g' \<and> priv_attributes g' = Some a \<and>
    (let ps = point_list points; n = length ps;
         closed = point_eq (ps ! 0) (ps ! (n - 1))
     in point_block 0 (array (attr_previous a)) = dup (if closed then ps ! (n - 2) else ps ! 0) \<and>
        point_block (n - 1) (array (attr_next a)) = dup (if closed then ps ! 1 else ps ! (n - 1)) \<and>
        (\<forall>j. 0 < j \<and> j < n - 1 \<longrightarrow>
           point_block j (array (attr_previous a)) = dup (ps ! (j - 1)) \<and>
           point_block j (array (attr_next a)) = dup (ps ! (j + 1))))"
proof -
  define ps where "ps = point_list points"
  have t: "tessellable (point_list points)" using assms(3) by (rule tessellable_two)
  have ne: "ps \<noteq> []" using assms(3) by (auto simp: ps_def)
  obtain a where a: "priv_attributes (stored points wcb g) = Some a"
    "array (attr_previous a) = previous_of ps" "array (attr_next a) = next_of ps"
    using stored_attributes [OF t, of wcb g] by (auto simp: stored_fields ps_def)
  have sym: "point_eq (ps ! (length ps - 1)) (ps ! 0) = point_eq (ps ! 0) (ps ! (length ps - 1))"
    by (rule point_eq_sym)
  have "point_block j (previous_of ps) = dup (ps ! (j - 1))"
       "point_block j (next_of ps) = dup (ps ! (j + 1))"
    if "0 < j" "j < length ps - 1" for j
    using that previous_of_later [of j ps] next_of_earlier [of j ps] by simp_all
  then show ?thesis
    using setPoints_stored [OF assms(1,2) t, of wcb] a previous_of_first [of ps]
      next_of_last [OF ne] sym
    by (simp add: ps_def [symmetric] Let_def)
qed

theorem adjacency_witness:
  "consistent new_geometry \<and>
   well_formed (NumberArray [Fin 0, Fin 0, Fin 0, Fin 1, Fin 0, Fin 0, Fin 0, Fin 0, Fin 0]) \<and>
   2 \<le> length (point_list (NumberArray [Fin 0, Fin 0, Fin 0, Fin 1, Fin 0, Fin 0, Fin 0, Fin 0, Fin 0])) \<and>
   (\<exists>g' a. setPoints (NumberArray [Fin 0, Fin 0, Fin 0, Fin 1, Fin 0, Fin 0, Fin 0, Fin 0, Fin 0])
              None new_geometry = Return g' \<and>
           priv_attributes g' = Some a \<and>
           point_block 0 (array (attr_previous a)) = [Fin 1, Fin 0, Fin 0, Fin 1, Fin 0, Fin 0] \<and>
           point_block 2 (array (attr_next a)) = [Fin 1, Fin 0, Fin 0, Fin 1, Fin 0, Fin 0] \<and>
           point_block 1 (array (attr_previous a)) = [Fin 0, Fin 0, Fin 0, Fin 0, Fin 0, Fin 0] \<and>
           point_block 1 (array (attr_next a)) = [Fin 0, Fin 0, Fin 0, Fin 0, Fin 0, Fin 0])"
proof -
  let ?P = "NumberArray [Fin 0, Fin 0, Fin 0, Fin 1, Fin 0, Fin 0, Fin 0, Fin 0, Fin 0]"
  have h1: "consistent new_geometry" by (simp add: consistent_def new_geometry_def)
  have h2: "well_formed ?P" by simp
  have h3: "2 \<le> length (point_list ?P)" by simp
  from adjacency [OF h1 h2 h3, of None] h1 h2 h3 show ?thesis
    by (auto simp: Let_def point_eq_def dup_def numeral_2_eq_2)
qed

text \<open>
  C3, over every history of calls on a new geometry (a call that throws leaves the object
  as it then is, and the history goes on). A \<open>setPoints\<close> counts as successful when it
  returns having tessellated, that is on a non-empty array. Before any such call
  \<open>advance\<close> throws \<open>Call setPoints first.\<close> and changes nothing. After one, \<open>advance(p)\<close>
  returns, and all it changes is the three attributes \<open>position\<close>, \<open>previous\<close> and
  \<open>next\<close>: \<open>previous\<close> holds the position array as it was, \<open>position\<close> holds it shifted
  left by 6 scalars with \<open>p\<close>, once for each rail, at its end, \<open>next\<close> holds that new
  position array shifted left by 6 scalars with \<open>p\<close>, twice, at its end, and the three are
  marked for upload. The other attributes and their flags, the private arrays and the
  stored points are as before.
\<close>

theorem advance_shifts:
  "if initialised calls new_geometry
   then \<exists>a. priv_attributes (after calls new_geometry) = Some a \<and>
          advance p (after calls new_geometry) =
            Return ((after calls new_geometry)\<lparr>priv_attributes := Some
              (a\<lparr>attr_position := (attr_position a)
                    \<lparr>array := drop 6 (array (attr_position a)) @ dup p, needsUpdate := True\<rparr>,
                 attr_previous := (attr_previous a)
                    \<lparr>array := array (attr_position a), needsUpdate := True\<rparr>,
                 attr_next := (attr_next a)
                    \<lparr>array := drop 6 (drop 6 (array (attr_position a)) @ dup p) @ dup p,
                      needsUpdate := True\<rparr>\<rparr>)\<rparr>)
   else advance p (after calls new_geometry) = Throw CallSetPointsFirst (after calls new_geometry)"
proof -
  define g where "g = after calls new_geometry"
  from after_final [OF new_geometry_consistent, of calls]
  have c: "consistent g"
    and n: "priv_attributes g = None \<longleftrightarrow> \<not> initialised calls new_geometry"
    by (simp_all add: g_def new_geometry_def)
  show ?thesis
  proof (cases "initialised calls new_geometry")
    case True
    with n obtain a where a: "priv_attributes g = Some a" by auto
    from advance_closed [OF c a, of p] a True show ?thesis
      by (simp add: g_def [symmetric] advanced_def)
  next
    case False
    with n have "priv_attributes g = None" by simp
    from advance_uninitialised [OF this, of p] False show ?thesis
      by (simp add: g_def [symmetric])
  qed
qed

theorem advance_shifts_witness:
  "initialised [SetPoints (NumberArray [Fin 0, Fin 0, Fin 0, Fin 1, Fin 0, Fin 0]) None] new_geometry \<and>
   (\<exists>g' a'. advance (Vector3 (Fin 9) (Fin 8) (Fin 7))
        (after [SetPoints (NumberArray [Fin 0, Fin 0, Fin 0, Fin 1, Fin 0, Fin 0]) None] new_geometry) =
        Return g' \<and>
      priv_attributes g' = Some a' \<and>
      array (attr_position a') =
        [Fin 1, Fin 0, Fin 0, Fin 1, Fin 0, Fin 0, Fin 9, Fin 8, Fin 7, Fin 9, Fin 8, Fin 7] \<and>
      array (attr_previous a') =
        [Fin 0, Fin 0, Fin 0, Fin 0, Fin 0, Fin 0, Fin 1, Fin 0, Fin 0, Fin 1, Fin 0, Fin 0] \<and>
      array (attr_next a') =
        [Fin 9, Fin 8, Fin 7, Fin 9, Fin 8, Fin 7, Fin 9, Fin 8, Fin 7, Fin 9, Fin 8, Fin 7]) \<and>
   \<not> initialised [Advance (Vector3 (Fin 1) (Fin 1) (Fin 1))] new_geometry \<and>
   advance (Vector3 (Fin 9) (Fin 8) (Fin 7))
     (after [Advance (Vector3 (Fin 1) (Fin 1) (Fin 1))] new_geometry) =
     Throw CallSetPointsFirst new_geometry"
proof -
  let ?P = "NumberArray [Fin 0, Fin 0, Fin 0, Fin 1, Fin 0, Fin 0]"
  let ?p = "Vector3 (Fin 9) (Fin 8) (Fin 7)"
  have t: "tessellable (point_list ?P)" by (rule tessellable_two) simp
  have s: "setPoints ?P None new_geometry = Return (stored ?P None new_geometry)"
    using new_geometry_consistent _ t by (rule setPoints_stored) simp
  obtain b where b: "priv_attributes (stored ?P None new_geometry) = Some b"
    "array (attr_position b) = positions_of (point_list ?P)"
    using stored_attributes [OF t, of None new_geometry] by (auto simp: stored_fields)
  have e: "advance q new_geometry = Throw CallSetPointsFirst new_geometry" for q
    by (rule advance_uninitialised) (simp add: new_geometry_def)
  from advance_shifts [of "[SetPoints ?P None]" ?p]
    advance_shifts [of "[Advance (Vector3 (Fin 1) (Fin 1) (Fin 1))]" ?p]
  show ?thesis
    by (auto simp: s e b positions_of_def dup_def)
qed





text \<open>
  C6, for every point with finite coordinates, every callback and every geometry: on a
  one-point line \<open>setPoints\<close> throws \<open>point missing\<close> out of \<open>#process\<close> before anything
  is pushed to \<open>#previous\<close> or \<open>#next\<close>, where the claim has it succeed with 2 vertices.
\<close>

theorem single_point_throws:
  "setPoints (Vector3Array [Vector3 (Fin a) (Fin b) (Fin c)]) wcb g =
     Throw PointMissing
       (g\<lparr>priv_points := Vector3Array [Vector3 (Fin a) (Fin b) (Fin c)],
          widthCallback := (case wcb of Some f \<Rightarrow> Some f | None \<Rightarrow> widthCallback g),
          priv_positions := [Fin a, Fin b, Fin c, Fin a, Fin b, Fin c],
          priv_counters := [Fin 0, Fin 0],
          priv_previous := [], priv_next := [], priv_side := [], priv_width := [],
          priv_indices_array := [], priv_uvs := []\<rparr>)"
  using setPoints_single [of "Vector3Array [Vector3 (Fin a) (Fin b) (Fin c)]"
      "Vector3 (Fin a) (Fin b) (Fin c)" wcb g]
  by (simp add: point_eq_Fin prepared_def positions_of_def dup_def counters_of_def counter_at_def)

text \<open>
  C7, amended: on a line of \<open>N\<close> points, two or more, the counter emitted for point \<open>j\<close>
  (once for each rail) is \<open>j / N\<close>: the index over the number of points, as both loops of
  \<open>setPoints\<close> compute it. The counter of the first point is 0 and that of the last is
  \<open>(N - 1) / N\<close>, below 1. The \<open>u\<close> coordinate of \<open>uv\<close> is another value, \<open>j / (N - 1)\<close>.
\<close>

theorem counters_by_point_count:
  assumes "consistent g" and "well_formed points" and "2 \<le> length (point_list points)"
  shows "\<exists>g' a. setPoints points wcb g = Return g' \<and> priv_attributes g' = Some a \<and>
    (let n = length (point_list points)
     in array (attr_counters a) =
          concat (map (\<lambda>j. [Fin (of_nat j / of_nat n), Fin (of_nat j / of_nat n)]) [0..<n]) \<and>
        array (attr_uv a) =
          concat (map (\<lambda>j. [Fin (of_nat j / of_nat (n - 1)), Fin 0,
                              Fin (of_nat j / of_nat (n - 1)), Fin 1]) [0..<n]) \<and>
        hd (array (attr_counters a)) = Fin 0 \<and>
        last (array (attr_counters a)) = Fin (of_nat (n - 1) / of_nat n))"
proof -
  define n where "n = length (point_list points)"
  have t: "tessellable (point_list points)" using assms(3) by (rule tessellable_two)
  obtain a where a: "priv_attributes (stored points wcb g) = Some a"
    "array (attr_counters a) = counters_of n"
    using stored_counters [OF assms(1) t, of wcb] by (auto simp: n_def)
  obtain a' where a': "priv_attributes (stored points wcb g) = Some a'"
    "array (attr_uv a') = uvs_of n"
    using stored_attributes [OF t, of wcb g] by (auto simp: stored_fields n_def)
  have pos: "0 < n" using assms(3) by (auto simp: n_def)
  have up: "[0..<n] = 0 # [1..<n]"
    using pos by (simp add: upt_conv_Cons)
  have "[0..<Suc (n - 1)] = [0..<n - 1] @ [n - 1]"
    by (rule upt_Suc_append) simp
  then have upl: "[0..<n] = [0..<n - 1] @ [n - 1]"
    using pos by simp
  have h: "hd (counters_of n) = Fin 0"
    unfolding counters_of_def by (subst up) (simp add: counter_at_def)
  have l: "last (counters_of n) = Fin (of_nat (n - 1) / of_nat n)"
    unfolding counters_of_def by (subst upl) (simp add: counter_at_def)
  show ?thesis
    using setPoints_stored [OF assms(1,2) t, of wcb] a a' h l uvs_of_Fin [of n] assms(3)
    by (simp add: n_def [symmetric] Let_def) (simp add: counters_of_def counter_at_def)
qed

theorem counters_by_point_count_witness:
  "consistent new_geometry \<and>
   well_formed (Vector3Array [Vector3 (Fin 0) (Fin 0) (Fin 0), Vector3 (Fin 1) (Fin 0) (Fin 0)]) \<and>
   2 \<le> length (point_list (Vector3Array [Vector3 (Fin 0) (Fin 0) (Fin 0), Vector3 (Fin 1) (Fin 0) (Fin 0)])) \<and>
   (\<exists>g' a. setPoints (Vector3Array [Vector3 (Fin 0) (Fin 0) (Fin 0), Vector3 (Fin 1) (Fin 0) (Fin 0)])
             None new_geometry = Return g' \<and>
           priv_attributes g' = Some a \<and>
           array (attr_counters a) = [Fin 0, Fin 0, Fin (1 / 2), Fin (1 / 2)] \<and>
           array (attr_uv a) = [Fin 0, Fin 0, Fin 0, Fin 1, Fin 1, Fin 0, Fin 1, Fin 1] \<and>
           hd (array (attr_counters a)) = Fin 0 \<and>
           last (array (attr_counters a)) = Fin (1 / 2))"
proof -
  let ?P = "Vector3Array [Vector3 (Fin 0) (Fin 0) (Fin 0), Vector3 (Fin 1) (Fin 0) (Fin 0)]"
  have h1: "consistent new_geometry" by (rule new_geometry_consistent)
  have h2: "well_formed ?P" by simp
  have h3: "2 \<le> length (point_list ?P)" by simp
  have up: "[0..<2] = [0, 1]" by (simp add: upt_rec)
  from counters_by_point_count [OF h1 h2 h3, of None] h1 h2 h3 show ?thesis
    by (auto simp: Let_def up)
qed

text \<open>
  On the line from \<open>(0, 0, 0)\<close> to \<open>(1, 0, 0)\<close> the counters are \<open>0, 0, 1/2, 1/2\<close> while
  the \<open>u\<close> coordinates are \<open>0, 0, 1, 1\<close>: the last counter is not 1.
\<close>

theorem counters_not_segment_normalised:
  "returns (setPoints (Vector3Array [Vector3 (Fin 0) (Fin 0) (Fin 0), Vector3 (Fin 1) (Fin 0) (Fin 0)])
      None new_geometry) \<and>
   priv_counters (final (setPoints
      (Vector3Array [Vector3 (Fin 0) (Fin 0) (Fin 0), Vector3 (Fin 1) (Fin 0) (Fin 0)])
      None new_geometry)) = [Fin 0, Fin 0, Fin (1 / 2), Fin (1 / 2)] \<and>
   priv_uvs (final (setPoints
      (Vector3Array [Vector3 (Fin 0) (Fin 0) (Fin 0), Vector3 (Fin 1) (Fin 0) (Fin 0)])
      None new_geometry)) = [Fin 0, Fin 0, Fin 0, Fin 1, Fin 1, Fin 0, Fin 1, Fin 1] \<and>
   last (priv_counters (final (setPoints
      (Vector3Array [Vector3 (Fin 0) (Fin 0) (Fin 0), Vector3 (Fin 1) (Fin 0) (Fin 0)])
      None new_geometry))) \<noteq> Fin 1"
proof -
  let ?P = "Vector3Array [Vector3 (Fin 0) (Fin 0) (Fin 0), Vector3 (Fin 1) (Fin 0) (Fin 0)]"
  have up: "[0..<2] = [0, 1]" by (simp add: upt_rec)
  have "setPoints ?P None new_geometry = Return (stored ?P None new_geometry)"
    by (rule setPoints_stored) (simp_all add: new_geometry_consistent tessellable_two)
  then show ?thesis
    by (simp add: stored_fields counters_of_def counter_at_def uvs_of_def u_at_def of_index_def up)
qed

text \<open>
  C8, amended: \<open>setPoints\<close> has no index overflow error. On every line of two points or
  more it returns, whatever the number of points, and the index attribute, a
  \<open>Uint16Array\<close>, holds each generated index modulo \<open>2 ^ 16\<close>; the stored indices are the
  generated ones as long as the number of vertices \<open>2 N\<close> is at most 65536.
\<close>

theorem indices_stored_modulo:
  assumes "consistent g" and "well_formed points" and "2 \<le> length (point_list points)"
  shows "\<exists>g' a. setPoints points wcb g = Return g' \<and> priv_attributes g' = Some a \<and>
    (let n = length (point_list points)
     in priv_indices_array g' = concat (map triangles [0..<n - 1]) \<and>
        array (attr_index a) = map of_nat (priv_indices_array g') \<and>
        map unat (array (attr_index a)) = map (\<lambda>i. i mod 65536) (priv_indices_array g') \<and>
        (2 * n \<le> 65536 \<longrightarrow> map unat (array (attr_index a)) = priv_indices_array g'))"
proof -
  define n where "n = length (point_list points)"
  have t: "tessellable (point_list points)" using assms(3) by (rule tessellable_two)
  obtain a where a: "priv_attributes (stored points wcb g) = Some a"
    "array (attr_index a) = to_uint16 (indices_of n)"
    using stored_attributes [OF t, of wcb g] by (auto simp: stored_fields n_def)
  have small: "map (\<lambda>i. i mod 65536) (indices_of n) = indices_of n" if "2 * n \<le> 65536"
    using indices_of_bound [of n] that by (intro map_idI) auto
  show ?thesis
    using setPoints_stored [OF assms(1,2) t, of wcb] a small
    by (simp add: n_def [symmetric] Let_def stored_fields unat_to_uint16)
       (simp add: to_uint16_def indices_of_def)
qed

theorem indices_stored_modulo_witness:
  "consistent new_geometry \<and>
   well_formed (Vector3Array [Vector3 (Fin 0) (Fin 0) (Fin 0), Vector3 (Fin 1) (Fin 0) (Fin 0),
      Vector3 (Fin 2) (Fin 0) (Fin 0)]) \<and>
   2 \<le> length (point_list (Vector3Array [Vector3 (Fin 0) (Fin 0) (Fin 0),
      Vector3 (Fin 1) (Fin 0) (Fin 0), Vector3 (Fin 2) (Fin 0) (Fin 0)])) \<and>
   (\<exists>g' a. setPoints (Vector3Array [Vector3 (Fin 0) (Fin 0) (Fin 0),
               Vector3 (Fin 1) (Fin 0) (Fin 0), Vector3 (Fin 2) (Fin 0) (Fin 0)])
             None new_geometry = Return g' \<and>
           priv_attributes g' = Some a \<and>
           priv_indices_array g' = [0, 1, 2, 2, 1, 3, 2, 3, 4, 4, 3, 5] \<and>
           map unat (array (attr_index a)) = [0, 1, 2, 2, 1, 3, 2, 3, 4, 4, 3, 5])"
proof -
  let ?P = "Vector3Array [Vector3 (Fin 0) (Fin 0) (Fin 0), Vector3 (Fin 1) (Fin 0) (Fin 0),
      Vector3 (Fin 2) (Fin 0) (Fin 0)]"
  have h1: "consistent new_geometry" by (rule new_geometry_consistent)
  have h2: "well_formed ?P" by simp
  have h3: "2 \<le> length (point_list ?P)" by simp
  have up: "[0..<2] = [0, 1]" by (simp add: upt_rec)
  from indices_stored_modulo [OF h1 h2 h3, of None] h1 h2 h3 show ?thesis
    by (auto simp: Let_def up triangles_def)
qed

text \<open>
  On a line of 32769 points \<open>setPoints\<close> returns; the index generated at position 196604,
  the third of segment 32767, is 65536, and the index attribute holds 0 there.
\<close>

theorem index_65536_stored_as_0:
  "returns (setPoints (Vector3Array (replicate 32769 (Vector3 (Fin 0) (Fin 0) (Fin 0))))
      None new_geometry) \<and>
   priv_indices_array (final (setPoints
      (Vector3Array (replicate 32769 (Vector3 (Fin 0) (Fin 0) (Fin 0)))) None new_geometry))
      ! 196604 = 65536 \<and>
   map_option (\<lambda>a. array (attr_index a) ! 196604) (priv_attributes (final (setPoints
      (Vector3Array (replicate 32769 (Vector3 (Fin 0) (Fin 0) (Fin 0)))) None new_geometry)))
      = Some 0"
proof -
  let ?P = "Vector3Array (replicate 32769 (Vector3 (Fin 0) (Fin 0) (Fin 0)))"
  have len: "length (point_list ?P) = 32769" by simp
  have t: "tessellable (point_list ?P)"
    by (rule tessellable_two) (simp only: len)
  have s: "setPoints ?P None new_geometry = Return (stored ?P None new_geometry)"
    using new_geometry_consistent _ t by (rule setPoints_stored) simp
  have i: "priv_indices_array (stored ?P None new_geometry) = indices_of 32769"
    by (simp only: stored_fields len)
  have "indices_of 32769 ! (6 * 32767 + 2) = triangles 32767 ! 2"
    by (rule indices_of_nth) simp_all
  then have n: "indices_of 32769 ! 196604 = 65536"
    by (simp add: triangles_def)
  obtain a where a: "priv_attributes (stored ?P None new_geometry) = Some a"
    "array (attr_index a) = to_uint16 (indices_of 32769)"
    using stored_attributes [OF t, of None new_geometry] i by auto
  have "to_uint16 (indices_of 32769) ! 196604 = of_nat (indices_of 32769 ! 196604)"
    unfolding to_uint16_def by (rule nth_map) simp
  then have "array (attr_index a) ! 196604 = 0"
    by (simp add: a(2) n)
  then show ?thesis
    by (simp only: s returns.simps final.simps i n a(1) option.map)
qed

text \<open>
  C9, at the line of the one point \<open>(0, 0, 0)\<close>, given with a width callback to a new
  geometry. The claim has the callback invoked once there, on the argument 0, and its
  result stored as the width of both rail vertices. The code does neither: \<open>setPoints\<close>
  throws \<open>point missing\<close> from \<open>#clonePoint\<close> before the loop of \<open>#process\<close> is entered,
  the callback has not been invoked, no width has been emitted and no attribute exists.
  On two points and more, and with no callback, the claim holds (lemma
  \<open>width_callback_use\<close>).
\<close>

theorem one_point_line_never_invokes:
  "\<exists>g'. setPoints (Vector3Array [Vector3 (Fin 0) (Fin 0) (Fin 0)]) (Some (\<lambda>p. p)) new_geometry =
          Throw PointMissing g' \<and>
        callback_log g' = [] \<and> priv_width g' = [] \<and> priv_attributes g' = None"
proof -
  let ?P = "Vector3Array [Vector3 (Fin 0) (Fin 0) (Fin 0)]"
  have "setPoints ?P (Some (\<lambda>p. p)) new_geometry =
     Throw PointMissing
       ((prepared ?P (Some (\<lambda>p. p)) new_geometry)\<lparr>priv_previous := [], priv_next := [],
          priv_side := [], priv_width := [], priv_indices_array := [], priv_uvs := []\<rparr>)"
    by (rule setPoints_single [where p = "Vector3 (Fin 0) (Fin 0) (Fin 0)"])
       (simp_all add: point_eq_def)
  then show ?thesis
    by (simp add: prepared_def new_geometry_def)
qed

text \<open>
  C10: for every sequence \<open>ps\<close> of \<open>N\<close> points, every callback argument and every
  geometry, \<open>setPoints\<close> on the array of \<open>Vector3\<close> and on the flat array of the same
  coordinates.

  \<^item> The two calls have the same outcome but for the reference stored in \<open>#points\<close>: the
    same return or throw, the same private arrays, attributes, callback and log.
  \<^item> On no points both return and change nothing.
  \<^item> On one point or more both leave in \<open>#positions\<close> the coordinates of each point
    twice, and in \<open>#counters\<close> the value \<open>k / N\<close> twice for the point of index \<open>k\<close>,
    whether the call then returns or throws.
  \<^item> On two points or more and a consistent geometry both return, and their attributes
    are the same: \<open>position\<close> and \<open>counters\<close> hold those two arrays, \<open>previous\<close>, \<open>next\<close>,
    \<open>side\<close>, \<open>width\<close> and \<open>uv\<close> the tessellation of \<open>ps\<close>, and \<open>index\<close> its indices as
    16-bit words.
\<close>

theorem input_shapes_agree:
  "(let flat = setPoints (NumberArray (flatten ps)) wcb g;
        vec = setPoints (Vector3Array ps) wcb g;
        n = length ps;
        positions = concat (map (\<lambda>p. [vx p, vy p, vz p, vx p, vy p, vz p]) ps);
        counters = concat (map (\<lambda>k. [Fin (of_nat k / of_nat n), Fin (of_nat k / of_nat n)]) [0..<n])
    in map_outcome forget_points flat = map_outcome forget_points vec \<and>
       (ps = [] \<longrightarrow> flat = Return g \<and> vec = Return g) \<and>
       (ps \<noteq> [] \<longrightarrow>
          priv_positions (final flat) = positions \<and> priv_positions (final vec) = positions \<and>
          priv_counters (final flat) = counters \<and> priv_counters (final vec) = counters) \<and>
       (consistent g \<and> 2 \<le> n \<longrightarrow>
          (\<exists>gf gv a. flat = Return gf \<and> vec = Return gv \<and>
             priv_attributes gf = Some a \<and> priv_attributes gv = Some a \<and>
             array (attr_position a) = positions \<and>
             array (attr_counters a) = counters \<and>
             array (attr_previous a) = previous_of ps \<and>
             array (attr_next a) = next_of ps \<and>
             array (attr_side a) = sides_of n \<and>
             array (attr_width a) =
               widths_of (case wcb of Some f \<Rightarrow> Some f | None \<Rightarrow> widthCallback g) n \<and>
             array (attr_uv a) = uvs_of n \<and>
             array (attr_index a) = to_uint16 (indices_of n))))"
proof -
  let ?F = "NumberArray (flatten ps)" and ?V = "Vector3Array ps"
  have wf: "well_formed ?F" "well_formed ?V" by simp_all
  have pl: "point_list ?F = ps" "point_list ?V = ps" by simp_all
  have pos: "positions_of ps = concat (map (\<lambda>p. [vx p, vy p, vz p, vx p, vy p, vz p]) ps)"
  proof -
    have "dup = (\<lambda>p. [vx p, vy p, vz p, vx p, vy p, vz p])"
      by (rule ext) (simp add: dup_def)
    then show ?thesis by (simp add: positions_of_def)
  qed
  have cnt: "counters_of (length ps) =
     concat (map (\<lambda>k. [Fin (of_nat k / of_nat (length ps)), Fin (of_nat k / of_nat (length ps))])
       [0..<length ps])"
  proof -
    have "counter_at (length ps) = (\<lambda>k. Fin (of_nat k / of_nat (length ps)))"
      by (rule ext) (simp add: counter_at_def)
    then show ?thesis by (simp add: counters_of_def)
  qed
  have agree: "map_outcome forget_points (setPoints ?F wcb g) =
     map_outcome forget_points (setPoints ?V wcb g)"
  proof (cases "ps = []")
    case True
    then show ?thesis by (simp add: setPoints_def flatten_def)
  next
    case False
    note prep = prepared_points [of ?F ?V wcb g]
    show ?thesis
    proof (cases "tessellable ps")
      case True
      show ?thesis
        using setPoints_closed [OF wf(1), of wcb g] setPoints_closed [OF wf(2), of wcb g] True
        by (simp add: prep tessellated_points store_attributes_points)
    next
      case f: False
      obtain p where p: "ps = [p]" "point_eq p p"
        using not_tessellable [OF False f] by blast
      show ?thesis
        using setPoints_single [OF wf(1), of p wcb g] setPoints_single [OF wf(2), of p wcb g] p
        by (simp add: prepared_def forget_points_def)
    qed
  qed
  have empty: "setPoints ?F wcb g = Return g \<and> setPoints ?V wcb g = Return g" if "ps = []"
    using that by (simp add: setPoints_def flatten_def)
  have filled: "priv_positions (final (setPoints ?F wcb g)) = positions_of ps \<and>
      priv_positions (final (setPoints ?V wcb g)) = positions_of ps \<and>
      priv_counters (final (setPoints ?F wcb g)) = counters_of (length ps) \<and>
      priv_counters (final (setPoints ?V wcb g)) = counters_of (length ps)" if "ps \<noteq> []"
    using setPoints_filled [OF wf(1), of wcb g] setPoints_filled [OF wf(2), of wcb g] that
    by simp
  have attrs: "\<exists>gf gv a. setPoints ?F wcb g = Return gf \<and> setPoints ?V wcb g = Return gv \<and>
       priv_attributes gf = Some a \<and> priv_attributes gv = Some a \<and>
       array (attr_position a) = positions_of ps \<and>
       array (attr_counters a) = counters_of (length ps) \<and>
       array (attr_previous a) = previous_of ps \<and>
       array (attr_next a) = next_of ps \<and>
       array (attr_side a) = sides_of (length ps) \<and>
       array (attr_width a) =
         widths_of (case wcb of Some f \<Rightarrow> Some f | None \<Rightarrow> widthCallback g) (length ps) \<and>
       array (attr_uv a) = uvs_of (length ps) \<and>
       array (attr_index a) = to_uint16 (indices_of (length ps))"
    if c: "consistent g" and n: "2 \<le> length ps"
  proof -
    have t: "tessellable ps" using n by (rule tessellable_two)
    have rf: "setPoints ?F wcb g = Return (stored ?F wcb g)"
      using setPoints_stored [OF c wf(1), of wcb] t by simp
    have rv: "setPoints ?V wcb g = Return (stored ?V wcb g)"
      using setPoints_stored [OF c wf(2), of wcb] t by simp
    have "forget_points (stored ?F wcb g) = forget_points (stored ?V wcb g)"
      using agree by (simp add: rf rv)
    then have "priv_attributes (forget_points (stored ?F wcb g)) =
        priv_attributes (forget_points (stored ?V wcb g))"
      by simp
    then have same: "priv_attributes (stored ?F wcb g) = priv_attributes (stored ?V wcb g)"
      by (simp add: forget_points_def)
    from setPoints_attributes [OF c wf(2), of wcb] n
    obtain a where a: "priv_attributes (stored ?V wcb g) = Some a"
      "array (attr_position a) = positions_of ps"
      "array (attr_counters a) = counters_of (length ps)"
      "array (attr_previous a) = previous_of ps"
      "array (attr_next a) = next_of ps"
      "array (attr_side a) = sides_of (length ps)"
      "array (attr_width a) =
         widths_of (case wcb of Some f \<Rightarrow> Some f | None \<Rightarrow> widthCallback g) (length ps)"
      "array (attr_uv a) = uvs_of (length ps)"
      "array (attr_index a) = to_uint16 (indices_of (length ps))"
      by auto
    show ?thesis
      using rf rv same a by simp
  qed
  show ?thesis
    unfolding Let_def pos [symmetric] cnt [symmetric]
    using agree empty filled attrs by blast
qed


theorem input_shapes_agree_witness:
  "[Vector3 (Fin 0) (Fin 0) (Fin 0), Vector3 (Fin 1) (Fin 0) (Fin 0)] \<noteq> [] \<and>
   consistent new_geometry \<and>
   2 \<le> length [Vector3 (Fin 0) (Fin 0) (Fin 0), Vector3 (Fin 1) (Fin 0) (Fin 0)] \<and>
   priv_counters (final (setPoints (NumberArray [Fin 0, Fin 0, Fin 0, Fin 1, Fin 0, Fin 0])
      None new_geometry)) = [Fin 0, Fin 0, Fin (1 / 2), Fin (1 / 2)] \<and>
   priv_counters (final (setPoints
      (Vector3Array [Vector3 (Fin 0) (Fin 0) (Fin 0), Vector3 (Fin 1) (Fin 0) (Fin 0)])
      None new_geometry)) = [Fin 0, Fin 0, Fin (1 / 2), Fin (1 / 2)] \<and>
   (\<exists>gf gv a.
      setPoints (NumberArray [Fin 0, Fin 0, Fin 0, Fin 1, Fin 0, Fin 0]) None new_geometry =
        Return gf \<and>
      setPoints (Vector3Array [Vector3 (Fin 0) (Fin 0) (Fin 0), Vector3 (Fin 1) (Fin 0) (Fin 0)])
        None new_geometry = Return gv \<and>
      priv_attributes gf = Some a \<and> priv_attributes gv = Some a \<and>
      array (attr_position a) =
        [Fin 0, Fin 0, Fin 0, Fin 0, Fin 0, Fin 0, Fin 1, Fin 0, Fin 0, Fin 1, Fin 0, Fin 0] \<and>
      array (attr_counters a) = [Fin 0, Fin 0, Fin (1 / 2), Fin (1 / 2)] \<and>
      array (attr_previous a) =
        [Fin 0, Fin 0, Fin 0, Fin 0, Fin 0, Fin 0, Fin 0, Fin 0, Fin 0, Fin 0, Fin 0, Fin 0] \<and>
      array (attr_next a) =
        [Fin 1, Fin 0, Fin 0, Fin 1, Fin 0, Fin 0, Fin 1, Fin 0, Fin 0, Fin 1, Fin 0, Fin 0] \<and>
      array (attr_side a) = [Fin 1, Fin (- 1), Fin 1, Fin (- 1)] \<and>
      array (attr_width a) = [Fin 1, Fin 1, Fin 1, Fin 1] \<and>
      array (attr_uv a) = [Fin 0, Fin 0, Fin 0, Fin 1, Fin 1, Fin 0, Fin 1, Fin 1] \<and>
      array (attr_index a) = [0, 1, 2, 2, 1, 3])"
proof -
  let ?ps = "[Vector3 (Fin 0) (Fin 0) (Fin 0), Vector3 (Fin 1) (Fin 0) (Fin 0)]"
  have h: "consistent new_geometry" by (rule new_geometry_consistent)
  have fl: "flatten ?ps = [Fin 0, Fin 0, Fin 0, Fin 1, Fin 0, Fin 0]"
    by (simp add: flatten_def)
  have up: "[0..<2] = [0, 1]" "[0..<Suc (Suc 0)] = [0, Suc 0]" by (simp_all add: upt_rec)
  have wc: "widthCallback new_geometry = None" by (simp add: new_geometry_def)
  have ev: "previous_of ?ps =
      [Fin 0, Fin 0, Fin 0, Fin 0, Fin 0, Fin 0, Fin 0, Fin 0, Fin 0, Fin 0, Fin 0, Fin 0]"
    "next_of ?ps =
      [Fin 1, Fin 0, Fin 0, Fin 1, Fin 0, Fin 0, Fin 1, Fin 0, Fin 0, Fin 1, Fin 0, Fin 0]"
    "sides_of 2 = [Fin 1, Fin (- 1), Fin 1, Fin (- 1)]"
    "widths_of None 2 = [Fin 1, Fin 1, Fin 1, Fin 1]"
    "uvs_of 2 = [Fin 0, Fin 0, Fin 0, Fin 1, Fin 1, Fin 0, Fin 1, Fin 1]"
    "to_uint16 (indices_of 2) = [0, 1, 2, 2, 1, 3]"
    by (simp_all add: previous_of_def next_of_def sides_of_def widths_of_def uvs_of_def
        indices_of_def to_uint16_def triangles_def width_at_def u_at_def of_index_def
        positions_of_def dup_def point_eq_def up Let_def)
  from input_shapes_agree [of ?ps None new_geometry] h show ?thesis
    by (simp add: Let_def fl up wc ev ev [unfolded numeral_2_eq_2])
qed

end
